theory Spec2Isabelle
  imports Main "HOL-Library.AList"
begin

section \<open>Data model\<close>

text \<open>
  The service of \<^verbatim>\<open>envsCollectionService.ts\<close> is asynchronous JavaScript: one thread, a
  queue of microtasks, promises. The embedding makes all of it explicit. A promise is named
  by the place of the source that creates it and the number of the activation that does so;
  a closure passed to \<^verbatim>\<open>then\<close>/\<^verbatim>\<open>catch\<close> or the rest of an \<^verbatim>\<open>async\<close>
  function after an \<^verbatim>\<open>await\<close> is a constructor of \<open>handler\<close>; the microtask queue is a
  list of jobs, run one at a time by the action \<open>Microtask\<close>.

  A \<^verbatim>\<open>PythonLocatorQuery\<close> is an object: the JavaScript \<^verbatim>\<open>Map\<close> compares its keys by
  reference, so a query is modelled by the number of its object, and the absent query
  (\<^verbatim>\<open>undefined\<close>) by \<open>None\<close>.
\<close>

datatype PythonLocatorQuery = Query nat

type_synonym query = "PythonLocatorQuery option"

datatype PythonEnvInfo = EnvInfo (executable: string) (detail: nat)

type_synonym error = string

datatype change_event = ChangeEvent (etype: string) (searchLocation: "string option")

text \<open>
  The \<^verbatim>\<open>index\<close> of a revision event is a JavaScript \<^verbatim>\<open>number\<close>, and it is used as a
  property key of the array \<^verbatim>\<open>seen\<close>. A number is an integer (\<^verbatim>\<open>-0\<close> being \<^verbatim>\<open>0\<close>), or
  it is not (a fraction, \<^verbatim>\<open>NaN\<close>, an infinity): the numbers of the second kind are told
  apart by a code, two of them being the same key exactly when they are the same number. An
  array index is an integer from \<open>0\<close> to \<^verbatim>\<open>2^32 - 2\<close>; every other key names an
  ordinary property of the array object.
\<close>

datatype js_number = Integral int | NonIntegral nat

definition array_index :: "js_number \<Rightarrow> nat option" where
  "array_index k =
     (case k of
        Integral i \<Rightarrow> if 0 \<le> i \<and> i < 2 ^ 32 - 1 then Some (nat i) else None
      | NonIntegral c \<Rightarrow> None)"

text \<open>
  A JavaScript array: its elements up to \<^verbatim>\<open>length\<close>, where \<open>None\<close> is a hole, which reads as
  \<^verbatim>\<open>undefined\<close>, and the properties set under keys that are no array index.
\<close>

record 'a js_array =
  elements :: "'a option list"
  properties :: "(js_number \<times> 'a) list"

definition js_empty :: "'a js_array" where
  "js_empty = \<lparr>elements = [], properties = []\<rparr>"

text \<open>
  \<^verbatim>\<open>a[k]\<close>: an element, \<^verbatim>\<open>undefined\<close> for a hole or an index past the end, or the property
  under \<open>k\<close>, \<^verbatim>\<open>undefined\<close> if there is none.
\<close>

definition js_index :: "'a js_array \<Rightarrow> js_number \<Rightarrow> 'a option" where
  "js_index a k =
     (case array_index k of
        Some i \<Rightarrow> if i < length (elements a) then elements a ! i else None
      | None \<Rightarrow> map_of (properties a) k)"

text \<open>
  \<^verbatim>\<open>a[k] = v\<close>: a write at an array index replaces the element there, or extends the array
  to \<open>i + 1\<close> elements, leaving holes; a write under any other key sets a property and leaves
  the elements and \<^verbatim>\<open>length\<close> as they are.
\<close>

definition js_assign :: "'a js_array \<Rightarrow> js_number \<Rightarrow> 'a \<Rightarrow> 'a js_array" where
  "js_assign a k v =
     (case array_index k of
        Some i \<Rightarrow>
          a\<lparr>elements :=
              (if i < length (elements a) then (elements a)[i := Some v]
               else elements a @ replicate (i - length (elements a)) None @ [Some v])\<rparr>
      | None \<Rightarrow> a\<lparr>properties := AList.update k v (properties a)\<rparr>)"

text \<open>
  \<^verbatim>\<open>a.push(v)\<close>: the new element goes to position \<^verbatim>\<open>length\<close>. An array holds at most
  \<^verbatim>\<open>2^32 - 1\<close> elements and \<^verbatim>\<open>push\<close> onto a full one raises a \<^verbatim>\<open>RangeError\<close>; the
  model lets the array grow, so it covers the runs in which \<^verbatim>\<open>seen\<close> stays below that
  length.
\<close>

definition js_push :: "'a js_array \<Rightarrow> 'a \<Rightarrow> 'a js_array" where
  "js_push a v = a\<lparr>elements := elements a @ [Some v]\<rparr>"

datatype PythonEnvUpdatedEvent = UpdatedEvent (index: js_number) (update: "PythonEnvInfo option")

datatype js_value = Undefined | EnvValue PythonEnvInfo | IterValue PythonEnvInfo | IterDone

datatype promise_state = Pending | Fulfilled js_value | Rejected error

text \<open>
  The promises of the program, by creation site. \<open>n\<close> numbers the activations of
  \<^verbatim>\<open>startRefresh\<close> (each makes exactly one call of \<^verbatim>\<open>iterEnvs\<close> and of
  \<^verbatim>\<open>addEnvsToCacheFromIterator\<close>), \<open>m\<close> the deliveries of the locator's change event
  (each makes one call of \<^verbatim>\<open>triggerNewRefresh\<close>), \<open>k\<close> the calls of \<^verbatim>\<open>resolveEnv\<close>.
\<close>

datatype pid =
    DeferredP nat          \<comment> \<open>line 87: \<^verbatim>\<open>deferred.promise\<close> of refresh \<open>n\<close>\<close>
  | StartRefreshP nat      \<comment> \<open>line 85: the promise of the async function \<^verbatim>\<open>startRefresh\<close>\<close>
  | AddEnvsP nat           \<comment> \<open>line 92: the promise of \<^verbatim>\<open>addEnvsToCacheFromIterator\<close>\<close>
  | ThenP nat              \<comment> \<open>lines 93-100: \<^verbatim>\<open>promise.then(async () => ...)\<close>\<close>
  | SuccessP nat           \<comment> \<open>line 94: the promise of the async arrow function\<close>
  | CatchP nat             \<comment> \<open>line 101: \<^verbatim>\<open>.catch((ex) => deferred.reject(ex))\<close>\<close>
  | UpdatesDoneP nat       \<comment> \<open>line 110: \<^verbatim>\<open>updatesDone.promise\<close>\<close>
  | NextP nat nat          \<comment> \<open>line 133: the \<open>j\<close>-th \<^verbatim>\<open>next()\<close> of the iterator of refresh \<open>n\<close>\<close>
  | ValidateP nat          \<comment> \<open>line 138: \<^verbatim>\<open>this.cache.validateCache()\<close>\<close>
  | FlushP nat             \<comment> \<open>line 139: \<^verbatim>\<open>this.cache.flush()\<close>\<close>
  | IgnoredP pid           \<comment> \<open>lines 61, 139: \<^verbatim>\<open>p.ignoreErrors()\<close>\<close>
  | NewRefreshP nat        \<comment> \<open>line 77: the promise of the async function \<^verbatim>\<open>triggerNewRefresh\<close>\<close>
  | ChainedP nat           \<comment> \<open>line 80: \<^verbatim>\<open>refreshPromise.then(() => this.startRefresh(query))\<close>\<close>
  | NotifyP nat            \<comment> \<open>lines 37-40: \<^verbatim>\<open>this.triggerNewRefresh().then(() => ...)\<close>\<close>
  | ResolveEnvP nat        \<comment> \<open>line 47: the promise of the async function \<^verbatim>\<open>resolveEnv\<close>\<close>
  | LocatorResolveP nat    \<comment> \<open>line 54: \<^verbatim>\<open>this.locator.resolveEnv(executablePath)\<close>\<close>

datatype resume_point = AfterNext | AfterUpdatesDone | AfterValidate

datatype handler =
    OnRefreshDone query nat        \<comment> \<open>lines 94-100, closed over \<^verbatim>\<open>query\<close> and \<^verbatim>\<open>deferred\<close>\<close>
  | OnRefreshFailed nat            \<comment> \<open>line 101, closed over \<^verbatim>\<open>deferred\<close>\<close>
  | StartChained nat query         \<comment> \<open>line 80: \<^verbatim>\<open>() => this.startRefresh(query)\<close>\<close>
  | Notify nat change_event        \<comment> \<open>lines 37-40, closed over \<^verbatim>\<open>event\<close>\<close>
  | Noop                           \<comment> \<open>the empty handler of \<^verbatim>\<open>ignoreErrors\<close>\<close>
  | ResolveWith pid                \<comment> \<open>the resolving function of a promise\<close>
  | RejectWith pid                 \<comment> \<open>the rejecting function of a promise\<close>
  | Resume nat resume_point        \<comment> \<open>\<^verbatim>\<open>addEnvsToCacheFromIterator\<close> after one of its awaits\<close>

datatype reaction =
  Reaction (onFulfilled: "handler option") (onRejected: "handler option") (derived: "pid option")

text \<open>
  A reaction job carries the promise it comes from, the reaction and the settled state of
  that promise; a thenable job resolves its first promise with its second one.
\<close>

datatype job = ReactionJob pid reaction promise_state | ThenableJob pid pid

datatype completion = Return js_value | ReturnPromise pid | Throw error

text \<open>
  What the service does to its collaborators and to its own subscribers, in order. The
  origin of a fired change event is the number of the locator event it was derived from, or
  \<open>None\<close> for an event passed through from the cache.
\<close>

datatype effect =
    RefreshStartFired                       \<comment> \<open>line 90: \<^verbatim>\<open>this.refreshStarted.fire()\<close>\<close>
  | IterEnvs nat query                      \<comment> \<open>line 91: \<^verbatim>\<open>this.locator.iterEnvs(query)\<close>\<close>
  | LocatorResolveEnv nat string            \<comment> \<open>line 54\<close>
  | CacheAddEnv PythonEnvInfo               \<comment> \<open>line 135\<close>
  | CacheUpdateEnv "PythonEnvInfo option" "PythonEnvInfo option"  \<comment> \<open>line 119\<close>
  | CacheValidate nat                       \<comment> \<open>line 138\<close>
  | CacheFlush nat                          \<comment> \<open>line 139\<close>
  | Fire "nat option" change_event          \<comment> \<open>lines 39 and 43: \<^verbatim>\<open>this.fire(...)\<close>\<close>
  | TraceError                              \<comment> \<open>line 60\<close>
  | Telemetry nat                           \<comment> \<open>line 97, with the number of cached environments\<close>

text \<open>
  Where an activation of \<^verbatim>\<open>addEnvsToCacheFromIterator\<close> stands: in its loop, at the await
  of line 137, at the await of line 138, past its last await (\<open>Returned\<close>), or ended by an
  exception.
\<close>

datatype phase = NotStarted | Iterating | AwaitingUpdates | Validating | Returned | Threw

text \<open>
  The locals of one activation of \<^verbatim>\<open>addEnvsToCacheFromIterator\<close>. \<open>seen\<close> is a JavaScript
  array.
  \<open>listening\<close> says that the listener of line 113 is subscribed and not disposed;
  \<open>nexts\<close> is the number of the iterator's \<^verbatim>\<open>next()\<close> call the loop is waiting for.
\<close>

record drain =
  seen :: "PythonEnvInfo js_array"
  state_done :: bool
  state_pending :: int
  listening :: bool
  phase_of :: phase
  nexts :: nat

record service =
  refreshPromises :: "(query \<times> pid) list"
  cache :: "PythonEnvInfo list"
  promises :: "pid \<Rightarrow> promise_state"
  reactions :: "pid \<Rightarrow> reaction list"
  jobs :: "job list"
  drains :: "nat \<Rightarrow> drain"
  refreshes :: nat
  changes :: nat
  resolves :: nat
  effects :: "effect list"
  hasOnUpdated :: "nat \<Rightarrow> bool"
  awaited :: "nat \<Rightarrow> pid option"
  started :: "nat \<Rightarrow> nat option"

text \<open>
  \<open>refreshPromises\<close> is the \<^verbatim>\<open>Map\<close> of line 22, in insertion order. \<open>hasOnUpdated n\<close> is
  the locator's choice for the iterator of its \<open>n\<close>-th \<^verbatim>\<open>iterEnvs\<close> call: whether it has
  the revision side-channel \<^verbatim>\<open>onUpdated\<close>. \<open>awaited m\<close> is the local constant
  \<^verbatim>\<open>refreshPromise\<close> of the \<open>m\<close>-th \<^verbatim>\<open>triggerNewRefresh\<close> (line 78), and \<open>started m\<close>
  the number of the refresh that activation started, once it has.
\<close>

section \<open>Promises and the microtask queue\<close>

definition emit :: "effect \<Rightarrow> service \<Rightarrow> service" where
  "emit e s = s\<lparr>effects := effects s @ [e]\<rparr>"

definition enqueue :: "job \<Rightarrow> service \<Rightarrow> service" where
  "enqueue j s = s\<lparr>jobs := jobs s @ [j]\<rparr>"

text \<open>Settling a pending promise queues one job per reaction; a settled promise stays as it is.\<close>

definition settle :: "pid \<Rightarrow> promise_state \<Rightarrow> service \<Rightarrow> service" where
  "settle p st s =
     (if promises s p = Pending then
        s\<lparr>promises := (promises s)(p := st),
          jobs := jobs s @ map (\<lambda>r. ReactionJob p r st) (reactions s p),
          reactions := (reactions s)(p := [])\<rparr>
      else s)"

text \<open>\<^verbatim>\<open>PerformPromiseThen\<close>: register the reaction, or queue its job when the promise is settled.\<close>

definition performThen :: "pid \<Rightarrow> reaction \<Rightarrow> service \<Rightarrow> service" where
  "performThen p r s =
     (if promises s p = Pending then s\<lparr>reactions := (reactions s)(p := reactions s p @ [r])\<rparr>
      else enqueue (ReactionJob p r (promises s p)) s)"

definition js_then :: "pid \<Rightarrow> handler option \<Rightarrow> handler option \<Rightarrow> pid \<Rightarrow> service \<Rightarrow> service" where
  "js_then p f r d s = performThen p (Reaction f r (Some d)) s"

definition await :: "pid \<Rightarrow> handler \<Rightarrow> service \<Rightarrow> service" where
  "await p h s = performThen p (Reaction (Some h) (Some h) None) s"

text \<open>
  Modelled from the spec: \<^verbatim>\<open>ignoreErrors\<close> (common/extensions, not in the sources at hand)
  is the fire-and-forget policy of the design notes, the result discarded and the error never
  propagated: \<^verbatim>\<open>p.catch(() => {})\<close>.
\<close>

definition ignoreErrors :: "pid \<Rightarrow> service \<Rightarrow> service" where
  "ignoreErrors p s = js_then p None (Some Noop) (IgnoredP p) s"

text \<open>Resolving a promise with what a handler or an async function body completed with.\<close>

fun resolve_with :: "pid \<Rightarrow> completion \<Rightarrow> service \<Rightarrow> service" where
  "resolve_with p (Return v) s = settle p (Fulfilled v) s"
| "resolve_with p (ReturnPromise t) s = enqueue (ThenableJob p t) s"
| "resolve_with p (Throw e) s = settle p (Rejected e) s"

section \<open>The cache\<close>

text \<open>
  Modelled from the spec: the cache (\<^verbatim>\<open>envsCollectionCache\<close>, not in the sources at hand)
  is a store of records keyed by identity, here the executable path. \<open>getEnv\<close> is the point
  lookup, \<open>addEnv\<close> inserts or overwrites by identity, \<open>updateEnv\<close> replaces the entry of
  the old record, removes it when the new record is absent, and does nothing when the old
  record is \<^verbatim>\<open>undefined\<close>.
\<close>

definition getEnv :: "PythonEnvInfo list \<Rightarrow> string \<Rightarrow> PythonEnvInfo option" where
  "getEnv envs path = List.find (\<lambda>e. executable e = path) envs"

definition getAllEnvs :: "PythonEnvInfo list \<Rightarrow> PythonEnvInfo list" where
  "getAllEnvs envs = envs"

definition addEnv :: "PythonEnvInfo \<Rightarrow> PythonEnvInfo list \<Rightarrow> PythonEnvInfo list" where
  "addEnv env envs =
     (if getEnv envs (executable env) = None then envs @ [env]
      else map (\<lambda>e. if executable e = executable env then env else e) envs)"

fun updateEnv :: "PythonEnvInfo option \<Rightarrow> PythonEnvInfo option \<Rightarrow> PythonEnvInfo list \<Rightarrow> PythonEnvInfo list" where
  "updateEnv None new envs = envs"
| "updateEnv (Some old) None envs = filter (\<lambda>e. executable e \<noteq> executable old) envs"
| "updateEnv (Some old) (Some new) envs =
     map (\<lambda>e. if executable e = executable old then new else e) envs"

section \<open>The service\<close>

subsection \<open>\<^verbatim>\<open>addEnvsToCacheFromIterator\<close> (lines 104-140)\<close>

definition upd_drain :: "nat \<Rightarrow> (drain \<Rightarrow> drain) \<Rightarrow> service \<Rightarrow> service" where
  "upd_drain n f s = s\<lparr>drains := (drains s)(n := f (drains s n))\<rparr>"

text \<open>
  The listener of lines 113-128. It is an async function with no await, so it runs to its
  end when the iterator fires the event; \<open>None\<close> is the closing sentinel \<^verbatim>\<open>null\<close>.
\<close>

definition onUpdated_listener :: "nat \<Rightarrow> PythonEnvUpdatedEvent option \<Rightarrow> service \<Rightarrow> service" where
  "onUpdated_listener n event s =
     (let s1 =
        (case event of
           None \<Rightarrow> upd_drain n (\<lambda>d. d\<lparr>state_done := True, listening := False\<rparr>) s
         | Some ev \<Rightarrow>
             (let sa = upd_drain n (\<lambda>d. d\<lparr>state_pending := state_pending d + 1\<rparr>) s;
                  old = js_index (seen (drains sa n)) (index ev);
                  sb = emit (CacheUpdateEnv old (update ev))
                         (sa\<lparr>cache := updateEnv old (update ev) (cache sa)\<rparr>);
                  sc = (case update ev of
                          None \<Rightarrow> sb
                        | Some u \<Rightarrow> upd_drain n (\<lambda>d. d\<lparr>seen := js_assign (seen d) (index ev) u\<rparr>) sb)
              in upd_drain n (\<lambda>d. d\<lparr>state_pending := state_pending d - 1\<rparr>) sc))
      in if state_done (drains s1 n) \<and> state_pending (drains s1 n) = 0
         then settle (UpdatesDoneP n) (Fulfilled Undefined) s1 else s1)"

text \<open>
  The function up to its first await: the locals, the subscription (or the immediate
  \<^verbatim>\<open>updatesDone.resolve()\<close>), and the first \<^verbatim>\<open>next()\<close> of the \<^verbatim>\<open>for await\<close> loop.
\<close>

definition addEnvsToCacheFromIterator :: "nat \<Rightarrow> service \<Rightarrow> service" where
  "addEnvsToCacheFromIterator n s =
     (let s1 = upd_drain n (\<lambda>_. \<lparr>seen = js_empty, state_done = False, state_pending = 0,
                  listening = hasOnUpdated s n, phase_of = Iterating, nexts = 0\<rparr>) s;
          s2 = (if hasOnUpdated s n then s1 else settle (UpdatesDoneP n) (Fulfilled Undefined) s1)
      in await (NextP n 0) (Resume n AfterNext) s2)"

text \<open>The function's body failing: its promise is rejected.\<close>

definition addEnvs_throw :: "nat \<Rightarrow> error \<Rightarrow> service \<Rightarrow> service" where
  "addEnvs_throw n e s =
     settle (AddEnvsP n) (Rejected e) (upd_drain n (\<lambda>d. d\<lparr>phase_of := Threw\<rparr>) s)"

text \<open>
  The rest of the function after each await, given the state of the awaited promise: the
  loop body and the next \<^verbatim>\<open>next()\<close> (lines 133-136), the await of line 137, the
  validation of line 138, the flush of line 139 and the return.
\<close>

fun resume :: "nat \<Rightarrow> resume_point \<Rightarrow> promise_state \<Rightarrow> service \<Rightarrow> service" where
  "resume n AfterNext (Fulfilled (IterValue env)) s =
     (let j = Suc (nexts (drains s n));
          s1 = upd_drain n (\<lambda>d. d\<lparr>seen := js_push (seen d) env, nexts := j\<rparr>) s;
          s2 = emit (CacheAddEnv env) (s1\<lparr>cache := addEnv env (cache s1)\<rparr>)
      in await (NextP n j) (Resume n AfterNext) s2)"
| "resume n AfterNext (Fulfilled IterDone) s =
     await (UpdatesDoneP n) (Resume n AfterUpdatesDone)
       (upd_drain n (\<lambda>d. d\<lparr>phase_of := AwaitingUpdates\<rparr>) s)"
| "resume n AfterNext (Rejected e) s = addEnvs_throw n e s"
| "resume n AfterNext st s = s"
| "resume n AfterUpdatesDone (Rejected e) s = addEnvs_throw n e s"
| "resume n AfterUpdatesDone st s =
     await (ValidateP n) (Resume n AfterValidate)
       (upd_drain n (\<lambda>d. d\<lparr>phase_of := Validating\<rparr>) (emit (CacheValidate n) s))"
| "resume n AfterValidate (Rejected e) s = addEnvs_throw n e s"
| "resume n AfterValidate st s =
     settle (AddEnvsP n) (Fulfilled Undefined)
       (ignoreErrors (FlushP n)
          (emit (CacheFlush n) (upd_drain n (\<lambda>d. d\<lparr>phase_of := Returned\<rparr>) s)))"

subsection \<open>\<^verbatim>\<open>getRefreshPromiseForQuery\<close>, \<^verbatim>\<open>startRefresh\<close>, \<^verbatim>\<open>triggerRefresh\<close>\<close>

definition getRefreshPromiseForQuery :: "query \<Rightarrow> service \<Rightarrow> pid option" where
  "getRefreshPromiseForQuery query s =
     (case map_of (refreshPromises s) query of
        Some p \<Rightarrow> Some p
      | None \<Rightarrow> map_of (refreshPromises s) None)"

text \<open>
  Modelled from the spec: \<^verbatim>\<open>createDeferred\<close> (common/utils/async, not in the sources at
  hand) gives a completion signal that is resolved or rejected once: a promise with its two
  settling functions, here \<open>settle\<close> on \<open>DeferredP n\<close> and on \<open>UpdatesDoneP n\<close>.

  \<^verbatim>\<open>startRefresh\<close> has no await: the whole body runs in the call. It is an async
  function, so what the caller gets is the function's own promise, resolved with the promise
  the body returns (line 93).
\<close>

definition startRefresh :: "query \<Rightarrow> service \<Rightarrow> pid \<times> service" where
  "startRefresh query s =
     (let n = refreshes s;
          s1 = s\<lparr>refreshes := Suc n,
                 refreshPromises := AList.update query (DeferredP n) (refreshPromises s)\<rparr>;
          s2 = emit RefreshStartFired s1;
          s3 = emit (IterEnvs n query) s2;
          s4 = addEnvsToCacheFromIterator n s3;
          s5 = js_then (AddEnvsP n) (Some (OnRefreshDone query n)) None (ThenP n) s4;
          s6 = js_then (ThenP n) None (Some (OnRefreshFailed n)) (CatchP n) s5
      in (StartRefreshP n, resolve_with (StartRefreshP n) (ReturnPromise (CatchP n)) s6))"

definition triggerRefresh :: "query \<Rightarrow> service \<Rightarrow> pid \<times> service" where
  "triggerRefresh query s =
     (case getRefreshPromiseForQuery query s of
        Some refreshPromise \<Rightarrow> (refreshPromise, s)
      | None \<Rightarrow> startRefresh query s)"

text \<open>The two closures of lines 94-101.\<close>

definition onRefreshDone :: "query \<Rightarrow> nat \<Rightarrow> service \<Rightarrow> completion \<times> service" where
  "onRefreshDone query n s =
     (let s1 = settle (DeferredP n) (Fulfilled Undefined) s;
          s2 = s1\<lparr>refreshPromises := AList.delete query (refreshPromises s1)\<rparr>;
          s3 = emit (Telemetry (length (getAllEnvs (cache s2)))) s2
      in (ReturnPromise (SuccessP n), settle (SuccessP n) (Fulfilled Undefined) s3))"

definition onRefreshFailed :: "nat \<Rightarrow> error \<Rightarrow> service \<Rightarrow> completion \<times> service" where
  "onRefreshFailed n ex s = (Return Undefined, settle (DeferredP n) (Rejected ex) s)"

subsection \<open>\<^verbatim>\<open>triggerNewRefresh\<close> and the constructor's subscriptions\<close>

definition startChained :: "nat \<Rightarrow> query \<Rightarrow> service \<Rightarrow> pid \<times> service" where
  "startChained m query s =
     (let (p, s1) = startRefresh query s
      in (p, s1\<lparr>started := (started s1)(m := Some (refreshes s))\<rparr>))"

definition triggerNewRefresh :: "query \<Rightarrow> service \<Rightarrow> pid \<times> service" where
  "triggerNewRefresh query s =
     (let m = changes s;
          refreshPromise = getRefreshPromiseForQuery query s;
          s1 = s\<lparr>changes := Suc m, awaited := (awaited s)(m := refreshPromise)\<rparr>;
          (nextRefreshPromise, s2) =
            (case refreshPromise of
               Some p \<Rightarrow> (ChainedP m, js_then p (Some (StartChained m query)) None (ChainedP m) s1)
             | None \<Rightarrow> startChained m query s1)
      in (NewRefreshP m, resolve_with (NewRefreshP m) (ReturnPromise nextRefreshPromise) s2))"

definition onLocatorChanged :: "change_event \<Rightarrow> service \<Rightarrow> service" where
  "onLocatorChanged event s =
     (let m = changes s;
          (p, s1) = triggerNewRefresh None s
      in js_then p (Some (Notify m (ChangeEvent (etype event) (searchLocation event)))) None
           (NotifyP m) s1)"

definition onCacheChanged :: "change_event \<Rightarrow> service \<Rightarrow> service" where
  "onCacheChanged e s = emit (Fire None e) s"

subsection \<open>\<^verbatim>\<open>resolveEnv\<close> and \<^verbatim>\<open>getEnvs\<close>\<close>

definition resolveEnv :: "string \<Rightarrow> service \<Rightarrow> pid \<times> service" where
  "resolveEnv executablePath s =
     (let k = resolves s;
          s1 = s\<lparr>resolves := Suc k\<rparr>;
          cachedEnv = getEnv (cache s1) executablePath
      in (ResolveEnvP k,
          (case cachedEnv of
             Some env \<Rightarrow>
               if length (refreshPromises s1) = 0
               then resolve_with (ResolveEnvP k) (Return (EnvValue env)) s1
               else resolve_with (ResolveEnvP k) (ReturnPromise (LocatorResolveP k))
                      (emit (LocatorResolveEnv k executablePath) s1)
           | None \<Rightarrow>
               resolve_with (ResolveEnvP k) (ReturnPromise (LocatorResolveP k))
                 (emit (LocatorResolveEnv k executablePath) s1))))"

text \<open>
  \<^verbatim>\<open>getQueryFilter\<close> (locatorUtils, not in the sources at hand) is a parameter: it only
  shapes the result.
\<close>

definition getEnvs ::
  "(PythonLocatorQuery \<Rightarrow> PythonEnvInfo \<Rightarrow> bool) \<Rightarrow> query \<Rightarrow> service \<Rightarrow> PythonEnvInfo list \<times> service" where
  "getEnvs getQueryFilter query s =
     (let cachedEnvs = getAllEnvs (cache s);
          s1 = (if length cachedEnvs = 0 \<and> length (refreshPromises s) = 0
                then (let (p, sa) = triggerRefresh None (emit TraceError s) in ignoreErrors p sa)
                else s)
      in (case query of
            Some q \<Rightarrow> filter (getQueryFilter q) cachedEnvs
          | None \<Rightarrow> cachedEnvs,
          s1))"

section \<open>Running the program\<close>

text \<open>A handler called with the settled state of its promise.\<close>

fun run_handler :: "handler \<Rightarrow> promise_state \<Rightarrow> service \<Rightarrow> completion \<times> service" where
  "run_handler (OnRefreshDone query n) st s = onRefreshDone query n s"
| "run_handler (OnRefreshFailed n) (Rejected ex) s = onRefreshFailed n ex s"
| "run_handler (OnRefreshFailed n) st s = (Return Undefined, s)"
| "run_handler (StartChained m query) st s =
     (let (p, s1) = startChained m query s in (ReturnPromise p, s1))"
| "run_handler (Notify m event) st s = (Return Undefined, emit (Fire (Some m) event) s)"
| "run_handler Noop st s = (Return Undefined, s)"
| "run_handler (ResolveWith p) st s = (Return Undefined, settle p st s)"
| "run_handler (RejectWith p) st s = (Return Undefined, settle p st s)"
| "run_handler (Resume n pt) st s = (Return Undefined, resume n pt st s)"

definition handler_for :: "reaction \<Rightarrow> promise_state \<Rightarrow> handler option" where
  "handler_for r st =
     (case st of Fulfilled v \<Rightarrow> onFulfilled r | Rejected e \<Rightarrow> onRejected r | Pending \<Rightarrow> None)"

fun run_job :: "job \<Rightarrow> service \<Rightarrow> service" where
  "run_job (ReactionJob src r st) s =
     (case handler_for r st of
        None \<Rightarrow> (case derived r of None \<Rightarrow> s | Some d \<Rightarrow> settle d st s)
      | Some h \<Rightarrow>
          (let (c, s1) = run_handler h st s
           in case derived r of None \<Rightarrow> s1 | Some d \<Rightarrow> resolve_with d c s1))"
| "run_job (ThenableJob p t) s =
     performThen t (Reaction (Some (ResolveWith p)) (Some (RejectWith p)) None) s"

text \<open>
  What can happen next: a consumer calls the service, a collaborator fires an event or
  settles a promise it gave to the service, or the oldest microtask runs. A collaborator
  can only act on what it was asked for: an iterator that exists and whose loop is waiting,
  a listener that is subscribed, a validation, a flush or a direct resolve that was called.
\<close>

datatype action =
    CallTriggerRefresh query
  | CallGetEnvs "PythonLocatorQuery \<Rightarrow> PythonEnvInfo \<Rightarrow> bool" query
  | CallResolveEnv string
  | LocatorChanged change_event
  | CacheChanged change_event
  | IterYields nat PythonEnvInfo
  | IterEnds nat
  | IterThrows nat error
  | IterUpdated nat "PythonEnvUpdatedEvent option"
  | ValidateResolves nat
  | ValidateRejects nat error
  | FlushResolves nat
  | FlushRejects nat error
  | LocatorResolves nat "PythonEnvInfo option"
  | LocatorResolveRejects nat error
  | Microtask

definition iterating :: "service \<Rightarrow> nat \<Rightarrow> bool" where
  "iterating s n = (n < refreshes s \<and> phase_of (drains s n) = Iterating)"

definition next_of :: "service \<Rightarrow> nat \<Rightarrow> pid" where
  "next_of s n = NextP n (nexts (drains s n))"

definition delegated :: "service \<Rightarrow> nat \<Rightarrow> bool" where
  "delegated s k =
     list_ex (\<lambda>e. case e of LocatorResolveEnv k' path \<Rightarrow> k' = k | _ \<Rightarrow> False) (effects s)"

fun step :: "action \<Rightarrow> service \<Rightarrow> service" where
  "step (CallTriggerRefresh query) s = snd (triggerRefresh query s)"
| "step (CallGetEnvs f query) s = snd (getEnvs f query s)"
| "step (CallResolveEnv path) s = snd (resolveEnv path s)"
| "step (LocatorChanged event) s = onLocatorChanged event s"
| "step (CacheChanged e) s = onCacheChanged e s"
| "step (IterYields n env) s =
     (if iterating s n then settle (next_of s n) (Fulfilled (IterValue env)) s else s)"
| "step (IterEnds n) s =
     (if iterating s n then settle (next_of s n) (Fulfilled IterDone) s else s)"
| "step (IterThrows n e) s =
     (if iterating s n then settle (next_of s n) (Rejected e) s else s)"
| "step (IterUpdated n event) s =
     (if n < refreshes s \<and> listening (drains s n) then onUpdated_listener n event s else s)"
| "step (ValidateResolves n) s =
     (if n < refreshes s \<and> phase_of (drains s n) = Validating
      then settle (ValidateP n) (Fulfilled Undefined) s else s)"
| "step (ValidateRejects n e) s =
     (if n < refreshes s \<and> phase_of (drains s n) = Validating
      then settle (ValidateP n) (Rejected e) s else s)"
| "step (FlushResolves n) s =
     (if n < refreshes s \<and> phase_of (drains s n) = Returned
      then settle (FlushP n) (Fulfilled Undefined) s else s)"
| "step (FlushRejects n e) s =
     (if n < refreshes s \<and> phase_of (drains s n) = Returned
      then settle (FlushP n) (Rejected e) s else s)"
| "step (LocatorResolves k env) s =
     (if delegated s k
      then settle (LocatorResolveP k)
             (Fulfilled (case env of None \<Rightarrow> Undefined | Some e \<Rightarrow> EnvValue e)) s
      else s)"
| "step (LocatorResolveRejects k e) s =
     (if delegated s k then settle (LocatorResolveP k) (Rejected e) s else s)"
| "step Microtask s = (case jobs s of [] \<Rightarrow> s | j # js \<Rightarrow> run_job j (s\<lparr>jobs := js\<rparr>))"

fun exec :: "action list \<Rightarrow> service \<Rightarrow> service" where
  "exec [] s = s"
| "exec (a # as) s = exec as (step a s)"

text \<open>
  The service as the constructor leaves it: nothing tracked, no promise settled, and a cache
  that holds whatever was persisted. \<open>upd\<close> is the locator's choice of iterators.
\<close>

definition init :: "(nat \<Rightarrow> bool) \<Rightarrow> PythonEnvInfo list \<Rightarrow> service" where
  "init upd envs =
     \<lparr>refreshPromises = [], cache = envs, promises = (\<lambda>p. Pending), reactions = (\<lambda>p. []),
      jobs = [],
      drains = (\<lambda>n. \<lparr>seen = js_empty, state_done = False, state_pending = 0, listening = False,
                       phase_of = NotStarted, nexts = 0\<rparr>),
      refreshes = 0, changes = 0, resolves = 0, effects = [], hasOnUpdated = upd,
      awaited = (\<lambda>m. None), started = (\<lambda>m. None)\<rparr>"

section \<open>The logging wrappers\<close>

text \<open>
  The second file wraps a logging library. \<^verbatim>\<open>logToAll\<close> (from \<^verbatim>\<open>./logger\<close>) and the levels
  (from \<^verbatim>\<open>./levels\<close>) are not in the sources at hand: the levels are the names the file
  uses, and \<^verbatim>\<open>logToAll\<close> is a parameter, any function of the loggers, the level and the
  arguments on the state \<open>'w\<close> of the transports.
\<close>

datatype LogLevel = Error | Warn | Info

datatype logger = GlobalLogger

type_synonym Arguments = "string list"

definition globalLogger :: logger where
  "globalLogger = GlobalLogger"

definition log ::
  "(logger list \<Rightarrow> LogLevel \<Rightarrow> Arguments \<Rightarrow> 'w \<Rightarrow> 'w) \<Rightarrow> LogLevel \<Rightarrow> Arguments \<Rightarrow> 'w \<Rightarrow> 'w" where
  "log logToAll logLevel args = logToAll [globalLogger] logLevel args"

definition logVerbose ::
  "(logger list \<Rightarrow> LogLevel \<Rightarrow> Arguments \<Rightarrow> 'w \<Rightarrow> 'w) \<Rightarrow> Arguments \<Rightarrow> 'w \<Rightarrow> 'w" where
  "logVerbose logToAll args = log logToAll Info args"

definition logError ::
  "(logger list \<Rightarrow> LogLevel \<Rightarrow> Arguments \<Rightarrow> 'w \<Rightarrow> 'w) \<Rightarrow> Arguments \<Rightarrow> 'w \<Rightarrow> 'w" where
  "logError logToAll args = log logToAll Error args"

definition logInfo ::
  "(logger list \<Rightarrow> LogLevel \<Rightarrow> Arguments \<Rightarrow> 'w \<Rightarrow> 'w) \<Rightarrow> Arguments \<Rightarrow> 'w \<Rightarrow> 'w" where
  "logInfo logToAll args = log logToAll Info args"

definition logWarning ::
  "(logger list \<Rightarrow> LogLevel \<Rightarrow> Arguments \<Rightarrow> 'w \<Rightarrow> 'w) \<Rightarrow> Arguments \<Rightarrow> 'w \<Rightarrow> 'w" where
  "logWarning logToAll args = log logToAll Warn args"

section \<open>Concrete runs\<close>

text \<open>
  Runs of the service used to evaluate the theorems below: a service just constructed with
  an empty cache and a locator whose iterators have no revision channel; two refreshes
  tracked at once, one for a query and the universal one; a refresh for a query whose
  iterator throws, run until the microtask queue is empty; and a locator whose iterator
  revises position 0 before it has yielded anything, then yields a record and revises
  position 0 again.
\<close>

definition fresh_service :: service where
  "fresh_service = init (\<lambda>n. False) []"


definition failed_refresh :: service where
  "failed_refresh =
     exec [CallTriggerRefresh (Some (Query 1)), Microtask, IterThrows 0 ''boom'',
           Microtask, Microtask, Microtask, Microtask] fresh_service"

definition revised_early :: service where
  "revised_early =
     exec [CallTriggerRefresh None,
           IterUpdated 0 (Some (UpdatedEvent (Integral 0) (Some (EnvInfo ''/x'' 0))))]
       (init (\<lambda>n. True) [])"

definition revised_later :: service where
  "revised_later =
     exec [Microtask, IterYields 0 (EnvInfo ''/a'' 0), Microtask,
           IterUpdated 0 (Some (UpdatedEvent (Integral 0) (Some (EnvInfo ''/a'' 1))))]
       revised_early"

section \<open>What every reachable state satisfies\<close>

text \<open>
  The claims about the order of events hold in every state that a sequence of actions
  reaches from a new service. They follow from an invariant in four parts: which reactions
  and jobs exist and what each of them stands for, what justifies each settled promise, what
  each recorded call of a collaborator implies, and how the control state of a drain relates
  to its promises.

  \<open>expected s p r\<close>: the reaction \<open>r\<close> may be registered on the promise \<open>p\<close>, or queued
  for it, in the state \<open>s\<close>. There is one clause per place of the source that registers a
  reaction.
\<close>

fun expected :: "service \<Rightarrow> pid \<Rightarrow> reaction \<Rightarrow> bool" where
  "expected s (AddEnvsP n) r =
     (n < refreshes s \<and> (\<exists>q. r = Reaction (Some (OnRefreshDone q n)) None (Some (ThenP n))))"
| "expected s (ThenP n) r =
     (n < refreshes s \<and> r = Reaction None (Some (OnRefreshFailed n)) (Some (CatchP n)))"
| "expected s (CatchP n) r =
     (n < refreshes s \<and>
      r = Reaction (Some (ResolveWith (StartRefreshP n))) (Some (RejectWith (StartRefreshP n))) None)"
| "expected s (SuccessP n) r =
     (n < refreshes s \<and>
      r = Reaction (Some (ResolveWith (ThenP n))) (Some (RejectWith (ThenP n))) None)"
| "expected s (StartRefreshP n) r =
     (n < refreshes s \<and>
      (r = Reaction None (Some Noop) (Some (IgnoredP (StartRefreshP n))) \<or>
       (\<exists>m. m < changes s \<and> started s m = Some n \<and>
          (r = Reaction (Some (ResolveWith (ChainedP m))) (Some (RejectWith (ChainedP m))) None
             \<and> awaited s m \<noteq> None
           \<or> r = Reaction (Some (ResolveWith (NewRefreshP m))) (Some (RejectWith (NewRefreshP m))) None
             \<and> awaited s m = None))))"
| "expected s (DeferredP n) r =
     (n < refreshes s \<and>
      (\<exists>m q. m < changes s \<and> r = Reaction (Some (StartChained m q)) None (Some (ChainedP m))
         \<and> awaited s m = Some (DeferredP n) \<and> started s m = None))"
| "expected s (ChainedP m) r =
     (m < changes s \<and> awaited s m \<noteq> None \<and>
      r = Reaction (Some (ResolveWith (NewRefreshP m))) (Some (RejectWith (NewRefreshP m))) None)"
| "expected s (NewRefreshP m) r =
     (m < changes s \<and> (\<exists>ev. r = Reaction (Some (Notify m ev)) None (Some (NotifyP m))))"
| "expected s (NextP n j) r =
     (n < refreshes s \<and> r = Reaction (Some (Resume n AfterNext)) (Some (Resume n AfterNext)) None
      \<and> phase_of (drains s n) = Iterating \<and> j = nexts (drains s n))"
| "expected s (UpdatesDoneP n) r =
     (n < refreshes s
      \<and> r = Reaction (Some (Resume n AfterUpdatesDone)) (Some (Resume n AfterUpdatesDone)) None
      \<and> phase_of (drains s n) = AwaitingUpdates)"
| "expected s (ValidateP n) r =
     (n < refreshes s
      \<and> r = Reaction (Some (Resume n AfterValidate)) (Some (Resume n AfterValidate)) None
      \<and> phase_of (drains s n) = Validating)"
| "expected s (FlushP n) r =
     (n < refreshes s \<and> r = Reaction None (Some Noop) (Some (IgnoredP (FlushP n)))
      \<and> phase_of (drains s n) = Returned)"
| "expected s (LocatorResolveP k) r =
     (k < resolves s \<and>
      r = Reaction (Some (ResolveWith (ResolveEnvP k))) (Some (RejectWith (ResolveEnvP k))) None)"
| "expected s (IgnoredP p) r = False"
| "expected s (NotifyP m) r = False"
| "expected s (ResolveEnvP k) r = False"

text \<open>
  A queued job belongs to a promise that is settled, carries the state the promise was settled
  with and a reaction expected on it; the job that resolves a promise with another promise
  stands for the pair of resolving functions it will register.
\<close>

fun job_ok :: "service \<Rightarrow> job \<Rightarrow> bool" where
  "job_ok s (ReactionJob src r st) = (promises s src = st \<and> st \<noteq> Pending \<and> expected s src r)"
| "job_ok s (ThenableJob d t) =
     expected s t (Reaction (Some (ResolveWith d)) (Some (RejectWith d)) None)"

text \<open>
  Two kinds of reaction exist at most once: the continuation of drain \<open>n\<close>, with the key
  \<open>Inl n\<close>, and the callback that starts the drain of the locator change \<open>m\<close>, with the key
  \<open>Inr m\<close>. No key occurs twice in the queue, nor twice among the reactions of a promise.
\<close>

fun owner :: "reaction \<Rightarrow> (nat + nat) list" where
  "owner (Reaction (Some (Resume n pt)) r d) = [Inl n]"
| "owner (Reaction (Some (StartChained m q)) r d) = [Inr m]"
| "owner (Reaction f r d) = []"

fun job_owner :: "job \<Rightarrow> (nat + nat) list" where
  "job_owner (ReactionJob src r st) = owner r"
| "job_owner (ThenableJob d t) = []"

definition job_owners :: "service \<Rightarrow> (nat + nat) list" where
  "job_owners s = concat (map job_owner (jobs s))"

definition reaction_owners :: "service \<Rightarrow> pid \<Rightarrow> (nat + nat) list" where
  "reaction_owners s p = concat (map owner (reactions s p))"

definition jobs_ok :: "service \<Rightarrow> bool" where
  "jobs_ok s = (\<forall>j \<in> set (jobs s). job_ok s j)"

definition reactions_ok :: "service \<Rightarrow> bool" where
  "reactions_ok s = (\<forall>p r. r \<in> set (reactions s p) \<longrightarrow> promises s p = Pending \<and> expected s p r)"

definition owners_ok :: "service \<Rightarrow> bool" where
  "owners_ok s = (distinct (job_owners s) \<and> (\<forall>p. distinct (reaction_owners s p)))"

text \<open>
  The records of the locator changes and the tracking map refer to drains that exist, and a
  locator change that waited for a handle has started its drain only after the handle was
  fulfilled.
\<close>

definition links_ok :: "service \<Rightarrow> bool" where
  "links_ok s =
     ((\<forall>m n. started s m = Some n \<longrightarrow>
            n < refreshes s \<and> m < changes s
            \<and> (\<forall>h. awaited s m = Some h \<longrightarrow> (\<exists>v. promises s h = Fulfilled v)))
      \<and> (\<forall>m h. awaited s m = Some h \<longrightarrow> m < changes s \<and> (\<exists>n<refreshes s. h = DeferredP n))
      \<and> (\<forall>q p. (q, p) \<in> set (refreshPromises s) \<longrightarrow> (\<exists>n<refreshes s. p = DeferredP n)))"

definition core :: "service \<Rightarrow> bool" where
  "core s = (jobs_ok s \<and> reactions_ok s \<and> owners_ok s \<and> links_ok s)"

definition owner_free :: "service \<Rightarrow> reaction \<Rightarrow> bool" where
  "owner_free s r =
     (\<forall>K \<in> set (owner r). K \<notin> set (job_owners s) \<and> (\<forall>p. K \<notin> set (reaction_owners s p)))"

text \<open>
  \<open>present s p r\<close>: the reaction \<open>r\<close> is registered on \<open>p\<close>, queued for \<open>p\<close>, or about to be
  registered on \<open>p\<close> by a queued job.
\<close>

definition present :: "service \<Rightarrow> pid \<Rightarrow> reaction \<Rightarrow> bool" where
  "present s p r =
     (r \<in> set (reactions s p) \<or> (\<exists>st. ReactionJob p r st \<in> set (jobs s))
      \<or> (\<exists>d. ThenableJob d p \<in> set (jobs s)
             \<and> r = Reaction (Some (ResolveWith d)) (Some (RejectWith d)) None))"

fun drain_of :: "pid \<Rightarrow> nat option" where
  "drain_of (NextP n j) = Some n"
| "drain_of (UpdatesDoneP n) = Some n"
| "drain_of (ValidateP n) = Some n"
| "drain_of (FlushP n) = Some n"
| "drain_of p = None"

subsection \<open>Settled promises, recorded calls and drains\<close>

text \<open>
  \<open>created s p\<close>: the activation that creates \<open>p\<close> has happened. \<open>just s p st\<close>: what must
  be the case when \<open>p\<close> is settled with \<open>st\<close>.
\<close>

fun created :: "service \<Rightarrow> pid \<Rightarrow> bool" where
  "created s (DeferredP n) = (n < refreshes s)"
| "created s (StartRefreshP n) = (n < refreshes s)"
| "created s (AddEnvsP n) = (n < refreshes s)"
| "created s (ThenP n) = (n < refreshes s)"
| "created s (SuccessP n) = (n < refreshes s)"
| "created s (CatchP n) = (n < refreshes s)"
| "created s (UpdatesDoneP n) = (n < refreshes s)"
| "created s (NextP n j) = (n < refreshes s)"
| "created s (ValidateP n) = (n < refreshes s)"
| "created s (FlushP n) = (n < refreshes s)"
| "created s (IgnoredP p) = created s p"
| "created s (NewRefreshP m) = (m < changes s)"
| "created s (ChainedP m) = (m < changes s)"
| "created s (NotifyP m) = (m < changes s)"
| "created s (ResolveEnvP k) = (k < resolves s)"
| "created s (LocatorResolveP k) = (k < resolves s)"

fun just :: "service \<Rightarrow> pid \<Rightarrow> promise_state \<Rightarrow> bool" where
  "just s (ThenP n) st =
     (promises s (AddEnvsP n) \<noteq> Pending
      \<and> (\<forall>e. st = Rejected e \<longrightarrow> promises s (AddEnvsP n) = Rejected e))"
| "just s (DeferredP n) st =
     (promises s (AddEnvsP n) \<noteq> Pending
      \<and> (\<forall>e. st = Rejected e \<longrightarrow> promises s (AddEnvsP n) = Rejected e))"
| "just s (SuccessP n) st = (promises s (AddEnvsP n) \<noteq> Pending \<and> (\<exists>v. st = Fulfilled v))"
| "just s (CatchP n) st = (promises s (ThenP n) \<noteq> Pending \<and> (\<exists>v. st = Fulfilled v))"
| "just s (StartRefreshP n) st = (promises s (CatchP n) \<noteq> Pending \<and> (\<exists>v. st = Fulfilled v))"
| "just s (IgnoredP p) st = (\<exists>v. st = Fulfilled v)"
| "just s (ChainedP m) st =
     ((\<exists>v. st = Fulfilled v) \<longrightarrow>
      (\<exists>n. started s m = Some n \<and> promises s (StartRefreshP n) \<noteq> Pending))"
| "just s (NewRefreshP m) st =
     ((\<exists>v. st = Fulfilled v) \<longrightarrow>
      (\<exists>n. started s m = Some n \<and> promises s (StartRefreshP n) \<noteq> Pending))"
| "just s (AddEnvsP n) st =
     (((\<exists>v. st = Fulfilled v) \<longrightarrow> CacheFlush n \<in> set (effects s))
      \<and> (\<forall>e. st = Rejected e \<longrightarrow>
            (\<exists>j. promises s (NextP n j) = Rejected e) \<or> promises s (ValidateP n) = Rejected e
            \<or> promises s (UpdatesDoneP n) = Rejected e))"
| "just s (UpdatesDoneP n) st =
     (st = Fulfilled Undefined \<and> (hasOnUpdated s n \<longrightarrow> state_done (drains s n)))"
| "just s (NextP n j) st = (\<forall>v. st = Fulfilled v \<longrightarrow> v = IterDone \<or> (\<exists>env. v = IterValue env))"
| "just s p st = True"

definition promises_ok :: "service \<Rightarrow> bool" where
  "promises_ok s = (\<forall>p. promises s p \<noteq> Pending \<longrightarrow> created s p \<and> just s p (promises s p))"

text \<open>The main sequence of drain \<open>n\<close> is exhausted: its last \<^verbatim>\<open>next()\<close> answered done.\<close>

definition exhausted :: "service \<Rightarrow> nat \<Rightarrow> bool" where
  "exhausted s n = (promises s (NextP n (nexts (drains s n))) = Fulfilled IterDone)"

text \<open>What each recorded call of a collaborator implies.\<close>

definition effects_ok :: "service \<Rightarrow> bool" where
  "effects_ok s =
     ((\<forall>n. CacheValidate n \<in> set (effects s) \<longrightarrow>
           exhausted s n \<and> promises s (UpdatesDoneP n) \<noteq> Pending)
      \<and> (\<forall>n. CacheFlush n \<in> set (effects s) \<longrightarrow>
           CacheValidate n \<in> set (effects s) \<and> (\<exists>v. promises s (ValidateP n) = Fulfilled v))
      \<and> (\<forall>m ev. Fire (Some m) ev \<in> set (effects s) \<longrightarrow> (\<exists>v. promises s (NewRefreshP m) = Fulfilled v))
      \<and> (\<forall>k path. LocatorResolveEnv k path \<in> set (effects s) \<longrightarrow> k < resolves s)
      \<and> (\<forall>n. (\<exists>q. IterEnvs n q \<in> set (effects s)) = (n < refreshes s)))"

text \<open>
  The locals of a drain and its control state: no revision is pending between two events, a
  subscribed listener has not seen the sentinel, and \<^verbatim>\<open>updatesDone\<close> is resolved as soon as
  nothing is waited for on the revision channel.
\<close>

definition drains_ok :: "service \<Rightarrow> bool" where
  "drains_ok s =
     (\<forall>n. state_pending (drains s n) = 0
        \<and> (listening (drains s n) \<longrightarrow>
             n < refreshes s \<and> hasOnUpdated s n \<and> \<not> state_done (drains s n))
        \<and> (phase_of (drains s n) = AwaitingUpdates \<longrightarrow> exhausted s n)
        \<and> (phase_of (drains s n) = Validating \<longrightarrow> CacheValidate n \<in> set (effects s))
        \<and> (n < refreshes s \<and> (hasOnUpdated s n \<longrightarrow> state_done (drains s n)) \<longrightarrow>
             promises s (UpdatesDoneP n) = Fulfilled Undefined))"

definition inv :: "service \<Rightarrow> bool" where
  "inv s = (core s \<and> promises_ok s \<and> effects_ok s \<and> drains_ok s)"

subsection \<open>Auxiliary notions of the preservation proofs\<close>

text \<open>Calls that can be recorded at any time.\<close>

fun harmless :: "effect \<Rightarrow> bool" where
  "harmless RefreshStartFired = True"
| "harmless (CacheAddEnv e) = True"
| "harmless (CacheUpdateEnv a b) = True"
| "harmless (Fire None ev) = True"
| "harmless TraceError = True"
| "harmless (Telemetry n) = True"
| "harmless e = False"

text \<open>No reaction, registered or queued, has the key \<open>K\<close>.\<close>

definition key_free :: "service \<Rightarrow> nat + nat \<Rightarrow> bool" where
  "key_free s K = (K \<notin> set (job_owners s) \<and> (\<forall>p. K \<notin> set (reaction_owners s p)))"

text \<open>
  \<^verbatim>\<open>startRefresh\<close> in two stages: the drain is allocated, tracked and its iterator
  obtained; then the listener is subscribed, or \<^verbatim>\<open>updatesDone\<close> resolved at once.
\<close>

definition new_drain :: "bool \<Rightarrow> drain" where
  "new_drain u = \<lparr>seen = js_empty, state_done = False, state_pending = 0, listening = u,
     phase_of = Iterating, nexts = 0\<rparr>"

definition allocated :: "query \<Rightarrow> service \<Rightarrow> service" where
  "allocated query s =
     upd_drain (refreshes s) (\<lambda>_. new_drain (hasOnUpdated s (refreshes s)))
       (emit (IterEnvs (refreshes s) query) (emit RefreshStartFired
          (s\<lparr>refreshes := Suc (refreshes s),
             refreshPromises := AList.update query (DeferredP (refreshes s)) (refreshPromises s)\<rparr>)))"

definition subscribed :: "query \<Rightarrow> service \<Rightarrow> service" where
  "subscribed query s =
     (if hasOnUpdated s (refreshes s) then allocated query s
      else settle (UpdatesDoneP (refreshes s)) (Fulfilled Undefined) (allocated query s))"

text \<open>When a call of a collaborator may be recorded.\<close>

fun emit_ok :: "service \<Rightarrow> effect \<Rightarrow> bool" where
  "emit_ok s (CacheValidate n) = (exhausted s n \<and> promises s (UpdatesDoneP n) \<noteq> Pending)"
| "emit_ok s (CacheFlush n) =
     (CacheValidate n \<in> set (effects s) \<and> (\<exists>v. promises s (ValidateP n) = Fulfilled v))"
| "emit_ok s (Fire (Some m) ev) = (\<exists>v. promises s (NewRefreshP m) = Fulfilled v)"
| "emit_ok s (LocatorResolveEnv k path) = (k < resolves s)"
| "emit_ok s (IterEnvs n q) = False"
| "emit_ok s e = True"

text \<open>Nothing registered or queued belongs to a promise of drain \<open>n\<close>.\<close>

definition quiet :: "service \<Rightarrow> nat \<Rightarrow> bool" where
  "quiet s n = (\<forall>p r. present s p r \<longrightarrow> drain_of p \<noteq> Some n)"

subsection \<open>Drains that go on\<close>


definition waits :: "service \<Rightarrow> nat \<Rightarrow> bool" where
  "waits s n = (\<not> key_free s (Inl n))"


definition ext :: "service \<Rightarrow> service \<Rightarrow> bool" where
  "ext s s' =
     (refreshes s \<le> refreshes s'
      \<and> (\<forall>n. n < refreshes s \<longrightarrow>
            phase_of (drains s' n) = phase_of (drains s n) \<and> (waits s n \<longrightarrow> waits s' n))
      \<and> (\<forall>n. refreshes s \<le> n \<and> n < refreshes s' \<longrightarrow> waits s' n))"

subsection \<open>Further runs\<close>








definition query_in_flight :: service where
  "query_in_flight = exec [CallTriggerRefresh (Some (Query 1))] (init (\<lambda>n. False) [])"

definition overlap_trace :: "action list" where
  "overlap_trace =
     [CallTriggerRefresh None,
      LocatorChanged (ChangeEvent ''created'' None),
      LocatorChanged (ChangeEvent ''changed'' None)]
     @ replicate 6 Microtask
     @ [IterEnds 0] @ replicate 4 Microtask
     @ [ValidateResolves 0] @ replicate 16 Microtask"

definition overlapping :: "PythonEnvInfo list \<Rightarrow> service" where
  "overlapping envs = exec overlap_trace (init (\<lambda>n. False) envs)"

definition outrun :: service where
  "outrun =
     exec ([LocatorChanged (ChangeEvent ''deleted'' None)] @ replicate 6 Microtask
           @ [IterEnds 2] @ replicate 4 Microtask
           @ [ValidateResolves 2] @ replicate 16 Microtask)
       (overlapping [])"

definition failed_universal :: service where
  "failed_universal =
     exec ([CallTriggerRefresh None] @ replicate 2 Microtask
           @ [IterThrows 0 ''boom''] @ replicate 8 Microtask)
       (init (\<lambda>n. False) [])"

definition stuck_change :: service where
  "stuck_change =
     exec ([LocatorChanged (ChangeEvent ''created'' None)] @ replicate 8 Microtask) failed_universal"



definition untracked :: "PythonEnvInfo list \<Rightarrow> service" where
  "untracked envs =
     exec ([IterEnds 1] @ replicate 4 Microtask @ [ValidateResolves 1] @ replicate 16 Microtask)
       (overlapping envs)"

definition unhandled_trace :: "action list" where
  "unhandled_trace =
     [CallGetEnvs (\<lambda>q e. True) None] @ replicate 4 Microtask
     @ [IterThrows 0 ''boom''] @ replicate 8 Microtask"

definition unhandled :: service where
  "unhandled = exec unhandled_trace (init (\<lambda>n. False) [])"

section \<open>What each primitive changes\<close>

lemma emit_fields [simp]:
  "refreshPromises (emit e s) = refreshPromises s" "cache (emit e s) = cache s"
  "promises (emit e s) = promises s" "reactions (emit e s) = reactions s"
  "jobs (emit e s) = jobs s" "drains (emit e s) = drains s"
  "refreshes (emit e s) = refreshes s" "changes (emit e s) = changes s"
  "resolves (emit e s) = resolves s" "effects (emit e s) = effects s @ [e]"
  "hasOnUpdated (emit e s) = hasOnUpdated s" "awaited (emit e s) = awaited s"
  "started (emit e s) = started s"
  by (simp_all add: emit_def)

lemma enqueue_fields [simp]:
  "refreshPromises (enqueue j s) = refreshPromises s" "cache (enqueue j s) = cache s"
  "promises (enqueue j s) = promises s" "reactions (enqueue j s) = reactions s"
  "jobs (enqueue j s) = jobs s @ [j]" "drains (enqueue j s) = drains s"
  "refreshes (enqueue j s) = refreshes s" "changes (enqueue j s) = changes s"
  "resolves (enqueue j s) = resolves s" "effects (enqueue j s) = effects s"
  "hasOnUpdated (enqueue j s) = hasOnUpdated s" "awaited (enqueue j s) = awaited s"
  "started (enqueue j s) = started s"
  by (simp_all add: enqueue_def)

lemma upd_drain_fields [simp]:
  "refreshPromises (upd_drain n f s) = refreshPromises s" "cache (upd_drain n f s) = cache s"
  "promises (upd_drain n f s) = promises s" "reactions (upd_drain n f s) = reactions s"
  "jobs (upd_drain n f s) = jobs s" "drains (upd_drain n f s) = (drains s)(n := f (drains s n))"
  "refreshes (upd_drain n f s) = refreshes s" "changes (upd_drain n f s) = changes s"
  "resolves (upd_drain n f s) = resolves s" "effects (upd_drain n f s) = effects s"
  "hasOnUpdated (upd_drain n f s) = hasOnUpdated s" "awaited (upd_drain n f s) = awaited s"
  "started (upd_drain n f s) = started s"
  by (simp_all add: upd_drain_def)

lemma settle_fields [simp]:
  "refreshPromises (settle p st s) = refreshPromises s" "cache (settle p st s) = cache s"
  "drains (settle p st s) = drains s"
  "refreshes (settle p st s) = refreshes s" "changes (settle p st s) = changes s"
  "resolves (settle p st s) = resolves s" "effects (settle p st s) = effects s"
  "hasOnUpdated (settle p st s) = hasOnUpdated s" "awaited (settle p st s) = awaited s"
  "started (settle p st s) = started s"
  by (simp_all add: settle_def)

lemma settle_promises:
  "promises (settle p st s) = (if promises s p = Pending then (promises s)(p := st) else promises s)"
  by (simp add: settle_def)

lemma settle_jobs:
  "jobs (settle p st s) =
     (if promises s p = Pending then jobs s @ map (\<lambda>r. ReactionJob p r st) (reactions s p) else jobs s)"
  by (simp add: settle_def)

lemma settle_reactions:
  "reactions (settle p st s) = (if promises s p = Pending then (reactions s)(p := []) else reactions s)"
  by (simp add: settle_def)

lemma performThen_fields [simp]:
  "refreshPromises (performThen p r s) = refreshPromises s" "cache (performThen p r s) = cache s"
  "promises (performThen p r s) = promises s" "drains (performThen p r s) = drains s"
  "refreshes (performThen p r s) = refreshes s" "changes (performThen p r s) = changes s"
  "resolves (performThen p r s) = resolves s" "effects (performThen p r s) = effects s"
  "hasOnUpdated (performThen p r s) = hasOnUpdated s" "awaited (performThen p r s) = awaited s"
  "started (performThen p r s) = started s"
  by (simp_all add: performThen_def)

lemma performThen_jobs:
  "jobs (performThen p r s) =
     (if promises s p = Pending then jobs s else jobs s @ [ReactionJob p r (promises s p)])"
  by (simp add: performThen_def)

lemma performThen_reactions:
  "reactions (performThen p r s) =
     (if promises s p = Pending then (reactions s)(p := reactions s p @ [r]) else reactions s)"
  by (simp add: performThen_def)

lemma resolve_with_fields [simp]:
  "refreshPromises (resolve_with p c s) = refreshPromises s" "cache (resolve_with p c s) = cache s"
  "drains (resolve_with p c s) = drains s"
  "refreshes (resolve_with p c s) = refreshes s" "changes (resolve_with p c s) = changes s"
  "resolves (resolve_with p c s) = resolves s" "effects (resolve_with p c s) = effects s"
  "hasOnUpdated (resolve_with p c s) = hasOnUpdated s" "awaited (resolve_with p c s) = awaited s"
  "started (resolve_with p c s) = started s"
  by (cases c; simp)+

lemma addEnvsToCacheFromIterator_fields [simp]:
  "refreshPromises (addEnvsToCacheFromIterator n s) = refreshPromises s"
  "cache (addEnvsToCacheFromIterator n s) = cache s"
  "refreshes (addEnvsToCacheFromIterator n s) = refreshes s"
  "changes (addEnvsToCacheFromIterator n s) = changes s"
  "resolves (addEnvsToCacheFromIterator n s) = resolves s"
  "effects (addEnvsToCacheFromIterator n s) = effects s"
  "hasOnUpdated (addEnvsToCacheFromIterator n s) = hasOnUpdated s"
  "awaited (addEnvsToCacheFromIterator n s) = awaited s"
  "started (addEnvsToCacheFromIterator n s) = started s"
  by (simp_all add: addEnvsToCacheFromIterator_def await_def Let_def)

lemma startRefresh_fields:
  "fst (startRefresh query s) = StartRefreshP (refreshes s)"
  "refreshPromises (snd (startRefresh query s)) =
     AList.update query (DeferredP (refreshes s)) (refreshPromises s)"
  "cache (snd (startRefresh query s)) = cache s"
  "refreshes (snd (startRefresh query s)) = Suc (refreshes s)"
  "changes (snd (startRefresh query s)) = changes s"
  "resolves (snd (startRefresh query s)) = resolves s"
  "effects (snd (startRefresh query s)) =
     effects s @ [RefreshStartFired, IterEnvs (refreshes s) query]"
  "hasOnUpdated (snd (startRefresh query s)) = hasOnUpdated s"
  "awaited (snd (startRefresh query s)) = awaited s"
  "started (snd (startRefresh query s)) = started s"
  by (simp_all add: startRefresh_def js_then_def Let_def)

section \<open>Deduplication of refreshes\<close>




lemma triggerRefresh_untracked:
  "getRefreshPromiseForQuery query s = None \<Longrightarrow> triggerRefresh query s = startRefresh query s"
  by (simp add: triggerRefresh_def)






section \<open>A refresh that fails\<close>

text \<open>
  C2 says that a failed refresh is removed from the tracking map, so that the next
  \<^verbatim>\<open>triggerRefresh(q)\<close> starts a new drain. The code removes the handle on success only
  (line 96); the handler of line 101 rejects the completion signal and leaves the map as it
  is. After the iterator of the refresh for \<open>Query 1\<close> has thrown and every microtask has
  run, the rejected handle is still tracked, and \<^verbatim>\<open>triggerRefresh\<close> for the same query
  returns it without calling \<^verbatim>\<open>iterEnvs\<close>.
\<close>

theorem failed_refresh_stays_tracked:
  "promises failed_refresh (DeferredP 0) = Rejected ''boom''
   \<and> jobs failed_refresh = []
   \<and> refreshPromises failed_refresh = [(Some (Query 1), DeferredP 0)]
   \<and> fst (triggerRefresh (Some (Query 1)) failed_refresh) = DeferredP 0
   \<and> effects (snd (triggerRefresh (Some (Query 1)) failed_refresh)) = effects failed_refresh
   \<and> effects failed_refresh = [RefreshStartFired, IterEnvs 0 (Some (Query 1))]"
  by code_simp

text \<open>
  C4 says that the rejection reaches every caller, the one whose call started the drain
  included. That caller holds the promise of \<^verbatim>\<open>startRefresh\<close>, which is resolved with the
  promise of \<^verbatim>\<open>.catch((ex) => deferred.reject(ex))\<close>: the handler returns normally, so the
  promise is fulfilled while the drain and the tracked completion signal are rejected.
\<close>

theorem failed_refresh_fulfils_for_its_starter:
  "fst (triggerRefresh (Some (Query 1)) fresh_service) = StartRefreshP 0
   \<and> promises failed_refresh (AddEnvsP 0) = Rejected ''boom''
   \<and> promises failed_refresh (DeferredP 0) = Rejected ''boom''
   \<and> promises failed_refresh (StartRefreshP 0) = Fulfilled Undefined
   \<and> jobs failed_refresh = []"
  by code_simp

section \<open>One call of the read path\<close>

text \<open>What one call of \<^verbatim>\<open>resolveEnv\<close> does in a state where the promise of the call is new.\<close>

lemma resolveEnv_from:
  assumes fresh: "promises s (ResolveEnvP (resolves s)) = Pending"
  shows "fst (resolveEnv path s) = ResolveEnvP (resolves s) \<and>
    (if getEnv (cache s) path \<noteq> None \<and> refreshPromises s = []
     then promises (snd (resolveEnv path s)) (ResolveEnvP (resolves s)) =
            Fulfilled (EnvValue (the (getEnv (cache s) path)))
          \<and> effects (snd (resolveEnv path s)) = effects s
     else promises (snd (resolveEnv path s)) (ResolveEnvP (resolves s)) = Pending
          \<and> effects (snd (resolveEnv path s)) = effects s @ [LocatorResolveEnv (resolves s) path]
          \<and> jobs (snd (resolveEnv path s)) =
              jobs s @ [ThenableJob (ResolveEnvP (resolves s)) (LocatorResolveP (resolves s))])"
  using fresh by (auto simp: resolveEnv_def Let_def settle_promises split: option.splits)

text \<open>What one call of \<^verbatim>\<open>getEnvs\<close> does in a state where the promise of the refresh is new.\<close>

lemma getEnvs_from:
  assumes fresh: "promises s (StartRefreshP (refreshes s)) = Pending"
  shows
    "(if getAllEnvs (cache s) = [] \<and> refreshPromises s = []
      then fst (getEnvs f query s) = []
        \<and> effects (snd (getEnvs f query s)) =
            effects s @ [TraceError, RefreshStartFired, IterEnvs (refreshes s) None]
        \<and> refreshes (snd (getEnvs f query s)) = Suc (refreshes s)
        \<and> refreshPromises (snd (getEnvs f query s)) = [(None, DeferredP (refreshes s))]
        \<and> reactions (snd (getEnvs f query s)) (StartRefreshP (refreshes s)) =
            reactions s (StartRefreshP (refreshes s)) @
              [Reaction None (Some Noop) (Some (IgnoredP (StartRefreshP (refreshes s))))]
      else snd (getEnvs f query s) = s
        \<and> fst (getEnvs f query s) =
            (case query of Some q \<Rightarrow> filter (f q) (getAllEnvs (cache s)) | None \<Rightarrow> getAllEnvs (cache s)))"
proof (cases "getAllEnvs (cache s) = [] \<and> refreshPromises s = []")
  case False
  then show ?thesis by (auto simp: getEnvs_def Let_def)
next
  case True
  have g: "getRefreshPromiseForQuery None (emit TraceError s) = None"
    using True by (simp add: getRefreshPromiseForQuery_def)
  have t: "triggerRefresh None (emit TraceError s) = startRefresh None (emit TraceError s)"
    using g by (rule triggerRefresh_untracked)
  have p: "promises (snd (startRefresh None (emit TraceError s))) (StartRefreshP (refreshes s)) = Pending"
    using fresh
    by (simp add: startRefresh_def Let_def js_then_def addEnvsToCacheFromIterator_def await_def
        settle_promises)
  have r: "reactions (snd (startRefresh None (emit TraceError s))) (StartRefreshP (refreshes s))
      = reactions s (StartRefreshP (refreshes s))"
    by (simp add: startRefresh_def Let_def js_then_def addEnvsToCacheFromIterator_def await_def
        settle_reactions performThen_reactions)
  show ?thesis
    using True t p r
    by (simp add: getEnvs_def Let_def split_beta startRefresh_fields ignoreErrors_def js_then_def
        performThen_reactions split: option.splits)
qed

section \<open>Revisions\<close>

lemma array_index_simps [simp]:
  "array_index (NonIntegral c) = None"
  "i < 0 \<Longrightarrow> array_index (Integral i) = None"
  "2 ^ 32 - 1 \<le> i \<Longrightarrow> array_index (Integral i) = None"
  "0 \<le> i \<Longrightarrow> i < 2 ^ 32 - 1 \<Longrightarrow> array_index (Integral i) = Some (nat i)"
  by (simp_all add: array_index_def)

lemma array_index_inject:
  "array_index k = Some p \<Longrightarrow> array_index k' = Some p \<Longrightarrow> k = k'"
  by (auto simp: array_index_def split: js_number.splits if_splits)

lemma js_index_assign_same: "js_index (js_assign a k v) k = Some v"
  by (auto simp: js_index_def js_assign_def update_conv' nth_append split: option.splits)

lemma js_index_assign_other:
  assumes "k' \<noteq> k"
  shows "js_index (js_assign a k v) k' = js_index a k'"
proof (cases "array_index k")
  case None
  with assms show ?thesis
    by (simp add: js_index_def js_assign_def update_conv' split: option.splits)
next
  case (Some p)
  show ?thesis
  proof (cases "array_index k'")
    case None
    with Some show ?thesis by (simp add: js_index_def js_assign_def)
  next
    case q: (Some q)
    with Some assms have "q \<noteq> p" using array_index_inject by blast
    with Some q show ?thesis
      by (auto simp: js_index_def js_assign_def nth_append nth_Cons' split: if_splits)
  qed
qed

lemma onUpdated_listener_revision:
  "effects (onUpdated_listener n (Some ev) s) =
      effects s @ [CacheUpdateEnv (js_index (seen (drains s n)) (index ev)) (update ev)]"
  "cache (onUpdated_listener n (Some ev) s) =
      updateEnv (js_index (seen (drains s n)) (index ev)) (update ev) (cache s)"
  "seen (drains (onUpdated_listener n (Some ev) s) n) =
      (case update ev of
         None \<Rightarrow> seen (drains s n)
       | Some u \<Rightarrow> js_assign (seen (drains s n)) (index ev) u)"
  by (cases "update ev"; simp add: onUpdated_listener_def Let_def)+

text \<open>
  C7, as amended. The revision handler makes no check of the index. For every revision event
  it calls \<^verbatim>\<open>cache.updateEnv\<close> with what \<^verbatim>\<open>seen\<close> holds under the index of the event as
  the old record, and when the event carries an update it stores the update in \<^verbatim>\<open>seen\<close>
  under that index and changes nothing else in \<^verbatim>\<open>seen\<close>. When the index is a position
  present in \<^verbatim>\<open>seen\<close>, the old record is the element at that position and the write replaces
  that element only. When the index is an array index at or past the end of \<^verbatim>\<open>seen\<close>, the
  old record is \<^verbatim>\<open>undefined\<close> and the write extends \<^verbatim>\<open>seen\<close> to the index plus one
  elements, with holes before the new one. When the index is no array index (negative, not an
  integer, or \<^verbatim>\<open>2^32 - 1\<close> or more), the old record is the property set under it, if any,
  and the write sets that property and leaves the elements of \<^verbatim>\<open>seen\<close> and their number
  as they are.
\<close>

theorem onUpdated_listener_keyed_by_seen:
  "effects (onUpdated_listener n (Some ev) s) =
      effects s @ [CacheUpdateEnv (js_index (seen (drains s n)) (index ev)) (update ev)]
   \<and> cache (onUpdated_listener n (Some ev) s) =
      updateEnv (js_index (seen (drains s n)) (index ev)) (update ev) (cache s)
   \<and> (update ev = None \<longrightarrow>
        seen (drains (onUpdated_listener n (Some ev) s) n) = seen (drains s n))
   \<and> (\<forall>u. update ev = Some u \<longrightarrow>
        js_index (seen (drains (onUpdated_listener n (Some ev) s) n)) (index ev) = Some u
        \<and> (\<forall>k. k \<noteq> index ev \<longrightarrow>
              js_index (seen (drains (onUpdated_listener n (Some ev) s) n)) k =
              js_index (seen (drains s n)) k))
   \<and> (\<forall>p. array_index (index ev) = Some p \<and> p < length (elements (seen (drains s n))) \<longrightarrow>
        effects (onUpdated_listener n (Some ev) s) =
          effects s @ [CacheUpdateEnv (elements (seen (drains s n)) ! p) (update ev)]
        \<and> properties (seen (drains (onUpdated_listener n (Some ev) s) n)) =
            properties (seen (drains s n))
        \<and> elements (seen (drains (onUpdated_listener n (Some ev) s) n)) =
            (case update ev of
               None \<Rightarrow> elements (seen (drains s n))
             | Some u \<Rightarrow> (elements (seen (drains s n)))[p := Some u]))
   \<and> (\<forall>p. array_index (index ev) = Some p \<and> length (elements (seen (drains s n))) \<le> p \<longrightarrow>
        effects (onUpdated_listener n (Some ev) s) =
          effects s @ [CacheUpdateEnv None (update ev)]
        \<and> properties (seen (drains (onUpdated_listener n (Some ev) s) n)) =
            properties (seen (drains s n))
        \<and> elements (seen (drains (onUpdated_listener n (Some ev) s) n)) =
            (case update ev of
               None \<Rightarrow> elements (seen (drains s n))
             | Some u \<Rightarrow>
                 elements (seen (drains s n))
                   @ replicate (p - length (elements (seen (drains s n)))) None @ [Some u]))
   \<and> (array_index (index ev) = None \<longrightarrow>
        effects (onUpdated_listener n (Some ev) s) =
          effects s @ [CacheUpdateEnv (map_of (properties (seen (drains s n))) (index ev)) (update ev)]
        \<and> elements (seen (drains (onUpdated_listener n (Some ev) s) n)) =
            elements (seen (drains s n))
        \<and> (\<forall>u. update ev = Some u \<longrightarrow>
              map_of (properties (seen (drains (onUpdated_listener n (Some ev) s) n))) (index ev)
                = Some u))"
proof -
  note r = onUpdated_listener_revision [of n ev s]
  have 1: "update ev = None \<longrightarrow>
      seen (drains (onUpdated_listener n (Some ev) s) n) = seen (drains s n)"
    by (simp add: r)
  have 2: "\<forall>u. update ev = Some u \<longrightarrow>
        js_index (seen (drains (onUpdated_listener n (Some ev) s) n)) (index ev) = Some u
        \<and> (\<forall>k. k \<noteq> index ev \<longrightarrow>
              js_index (seen (drains (onUpdated_listener n (Some ev) s) n)) k =
              js_index (seen (drains s n)) k)"
    by (simp add: r js_index_assign_same js_index_assign_other)
  have 3: "\<forall>p. array_index (index ev) = Some p \<and> p < length (elements (seen (drains s n))) \<longrightarrow>
        effects (onUpdated_listener n (Some ev) s) =
          effects s @ [CacheUpdateEnv (elements (seen (drains s n)) ! p) (update ev)]
        \<and> properties (seen (drains (onUpdated_listener n (Some ev) s) n)) =
            properties (seen (drains s n))
        \<and> elements (seen (drains (onUpdated_listener n (Some ev) s) n)) =
            (case update ev of
               None \<Rightarrow> elements (seen (drains s n))
             | Some u \<Rightarrow> (elements (seen (drains s n)))[p := Some u])"
    by (cases "update ev") (simp_all add: r js_index_def js_assign_def)
  have 4: "\<forall>p. array_index (index ev) = Some p \<and> length (elements (seen (drains s n))) \<le> p \<longrightarrow>
        effects (onUpdated_listener n (Some ev) s) =
          effects s @ [CacheUpdateEnv None (update ev)]
        \<and> properties (seen (drains (onUpdated_listener n (Some ev) s) n)) =
            properties (seen (drains s n))
        \<and> elements (seen (drains (onUpdated_listener n (Some ev) s) n)) =
            (case update ev of
               None \<Rightarrow> elements (seen (drains s n))
             | Some u \<Rightarrow>
                 elements (seen (drains s n))
                   @ replicate (p - length (elements (seen (drains s n)))) None @ [Some u])"
    by (cases "update ev") (simp_all add: r js_index_def js_assign_def)
  have 5: "array_index (index ev) = None \<longrightarrow>
        effects (onUpdated_listener n (Some ev) s) =
          effects s @ [CacheUpdateEnv (map_of (properties (seen (drains s n))) (index ev)) (update ev)]
        \<and> elements (seen (drains (onUpdated_listener n (Some ev) s) n)) =
            elements (seen (drains s n))
        \<and> (\<forall>u. update ev = Some u \<longrightarrow>
              map_of (properties (seen (drains (onUpdated_listener n (Some ev) s) n))) (index ev)
                = Some u)"
    by (cases "update ev") (simp_all add: r js_index_def js_assign_def update_conv')
  from r(1,2) 1 2 3 4 5 show ?thesis by (intro conjI)
qed

theorem onUpdated_listener_keyed_by_seen_witness:
  "elements (seen (drains revised_early 0)) = [Some (EnvInfo ''/x'' 0)]
   \<and> properties (seen (drains revised_early 0)) = []
   \<and> effects (onUpdated_listener 0 (Some (UpdatedEvent (Integral 0) (Some (EnvInfo ''/y'' 1)))) revised_early)
       = effects revised_early @ [CacheUpdateEnv (Some (EnvInfo ''/x'' 0)) (Some (EnvInfo ''/y'' 1))]
   \<and> elements (seen (drains
        (onUpdated_listener 0 (Some (UpdatedEvent (Integral 0) (Some (EnvInfo ''/y'' 1)))) revised_early) 0))
       = [Some (EnvInfo ''/y'' 1)]
   \<and> seen (drains (onUpdated_listener 0 (Some (UpdatedEvent (Integral 0) None)) revised_early) 0)
       = seen (drains revised_early 0)
   \<and> effects (onUpdated_listener 0 (Some (UpdatedEvent (Integral 3) (Some (EnvInfo ''/y'' 1)))) revised_early)
       = effects revised_early @ [CacheUpdateEnv None (Some (EnvInfo ''/y'' 1))]
   \<and> elements (seen (drains
        (onUpdated_listener 0 (Some (UpdatedEvent (Integral 3) (Some (EnvInfo ''/y'' 1)))) revised_early) 0))
       = [Some (EnvInfo ''/x'' 0), None, None, Some (EnvInfo ''/y'' 1)]
   \<and> js_index (seen (drains
        (onUpdated_listener 0 (Some (UpdatedEvent (Integral 3) (Some (EnvInfo ''/y'' 1)))) revised_early) 0))
        (Integral 0) = Some (EnvInfo ''/x'' 0)
   \<and> effects (onUpdated_listener 0 (Some (UpdatedEvent (Integral 4294967295) (Some (EnvInfo ''/y'' 1))))
        revised_early)
       = effects revised_early @ [CacheUpdateEnv None (Some (EnvInfo ''/y'' 1))]
   \<and> elements (seen (drains
        (onUpdated_listener 0 (Some (UpdatedEvent (Integral 4294967295) (Some (EnvInfo ''/y'' 1))))
           revised_early) 0))
       = [Some (EnvInfo ''/x'' 0)]
   \<and> map_of (properties (seen (drains
        (onUpdated_listener 0 (Some (UpdatedEvent (Integral 4294967295) (Some (EnvInfo ''/y'' 1))))
           revised_early) 0))) (Integral 4294967295) = Some (EnvInfo ''/y'' 1)
   \<and> elements (seen (drains
        (onUpdated_listener 0 (Some (UpdatedEvent (Integral (- 1)) (Some (EnvInfo ''/y'' 1)))) revised_early) 0))
       = [Some (EnvInfo ''/x'' 0)]
   \<and> elements (seen (drains
        (onUpdated_listener 0 (Some (UpdatedEvent (NonIntegral 0) (Some (EnvInfo ''/y'' 1)))) revised_early) 0))
       = [Some (EnvInfo ''/x'' 0)]"
proof -
  have a: "elements (seen (drains revised_early 0)) = [Some (EnvInfo ''/x'' 0)]"
    "properties (seen (drains revised_early 0)) = []"
    by (code_simp+)
  have i: "array_index (Integral 0) = Some 0" "array_index (Integral 3) = Some 3"
    "array_index (Integral 4294967295) = None" "array_index (Integral (- 1)) = None"
    "array_index (NonIntegral 0) = None"
    by (simp_all add: array_index_def)
  note t1 = onUpdated_listener_keyed_by_seen
      [of 0 "UpdatedEvent (Integral 0) (Some (EnvInfo ''/y'' 1))" revised_early]
  note t2 = onUpdated_listener_keyed_by_seen
      [of 0 "UpdatedEvent (Integral 0) None" revised_early]
  note t3 = onUpdated_listener_keyed_by_seen
      [of 0 "UpdatedEvent (Integral 3) (Some (EnvInfo ''/y'' 1))" revised_early]
  note t4 = onUpdated_listener_keyed_by_seen
      [of 0 "UpdatedEvent (Integral 4294967295) (Some (EnvInfo ''/y'' 1))" revised_early]
  note t5 = onUpdated_listener_keyed_by_seen
      [of 0 "UpdatedEvent (Integral (- 1)) (Some (EnvInfo ''/y'' 1))" revised_early]
  note t6 = onUpdated_listener_keyed_by_seen
      [of 0 "UpdatedEvent (NonIntegral 0) (Some (EnvInfo ''/y'' 1))" revised_early]
  have b: "effects (onUpdated_listener 0 (Some (UpdatedEvent (Integral 0) (Some (EnvInfo ''/y'' 1)))) revised_early)
       = effects revised_early @ [CacheUpdateEnv (Some (EnvInfo ''/x'' 0)) (Some (EnvInfo ''/y'' 1))]"
    "elements (seen (drains
        (onUpdated_listener 0 (Some (UpdatedEvent (Integral 0) (Some (EnvInfo ''/y'' 1)))) revised_early) 0))
       = [Some (EnvInfo ''/y'' 1)]"
    using t1 a i by (simp_all add: js_index_def)
  have c: "seen (drains (onUpdated_listener 0 (Some (UpdatedEvent (Integral 0) None)) revised_early) 0)
       = seen (drains revised_early 0)"
    using t2 by simp
  have d: "effects (onUpdated_listener 0 (Some (UpdatedEvent (Integral 3) (Some (EnvInfo ''/y'' 1)))) revised_early)
       = effects revised_early @ [CacheUpdateEnv None (Some (EnvInfo ''/y'' 1))]"
    "elements (seen (drains
        (onUpdated_listener 0 (Some (UpdatedEvent (Integral 3) (Some (EnvInfo ''/y'' 1)))) revised_early) 0))
       = [Some (EnvInfo ''/x'' 0), None, None, Some (EnvInfo ''/y'' 1)]"
    using t3 a i by (simp_all add: js_index_def numeral_2_eq_2)
  have d': "js_index (seen (drains
        (onUpdated_listener 0 (Some (UpdatedEvent (Integral 3) (Some (EnvInfo ''/y'' 1)))) revised_early) 0))
        (Integral 0) = Some (EnvInfo ''/x'' 0)"
    using t3 a i by (simp add: js_index_def)
  have e: "effects (onUpdated_listener 0 (Some (UpdatedEvent (Integral 4294967295) (Some (EnvInfo ''/y'' 1))))
        revised_early)
       = effects revised_early @ [CacheUpdateEnv None (Some (EnvInfo ''/y'' 1))]"
    "elements (seen (drains
        (onUpdated_listener 0 (Some (UpdatedEvent (Integral 4294967295) (Some (EnvInfo ''/y'' 1))))
           revised_early) 0))
       = [Some (EnvInfo ''/x'' 0)]"
    "map_of (properties (seen (drains
        (onUpdated_listener 0 (Some (UpdatedEvent (Integral 4294967295) (Some (EnvInfo ''/y'' 1))))
           revised_early) 0))) (Integral 4294967295) = Some (EnvInfo ''/y'' 1)"
    using t4 a i by (simp_all add: js_index_def)
  have f: "elements (seen (drains
        (onUpdated_listener 0 (Some (UpdatedEvent (Integral (- 1)) (Some (EnvInfo ''/y'' 1)))) revised_early) 0))
       = [Some (EnvInfo ''/x'' 0)]"
    "elements (seen (drains
        (onUpdated_listener 0 (Some (UpdatedEvent (NonIntegral 0) (Some (EnvInfo ''/y'' 1)))) revised_early) 0))
       = [Some (EnvInfo ''/x'' 0)]"
    using t5 t6 a i by (simp_all add: js_index_def)
  from a b c d d' e f show ?thesis by (intro conjI)
qed

text \<open>
  C7 as stated fails: a revision for position 0 that arrives before anything was yielded is
  not skipped. The cache is called with it, and \<^verbatim>\<open>seen\<close> gets the record \<^verbatim>\<open>/x\<close> at
  position 0. The record \<^verbatim>\<open>/a\<close> yielded next lands at position 1, so the revision of
  position 0 that follows is keyed by \<^verbatim>\<open>/x\<close>, which the main sequence never yielded, and
  the cache keeps the unrevised \<^verbatim>\<open>/a\<close>.
\<close>

theorem revision_of_unseen_position_counterexample:
  "elements (seen (drains (exec [CallTriggerRefresh None] (init (\<lambda>n. True) [])) 0)) = []
   \<and> effects revised_early =
       [RefreshStartFired, IterEnvs 0 None, CacheUpdateEnv None (Some (EnvInfo ''/x'' 0))]
   \<and> elements (seen (drains revised_early 0)) = [Some (EnvInfo ''/x'' 0)]
   \<and> elements (seen (drains revised_later 0)) = [Some (EnvInfo ''/a'' 1), Some (EnvInfo ''/a'' 0)]
   \<and> effects revised_later =
       [RefreshStartFired, IterEnvs 0 None, CacheUpdateEnv None (Some (EnvInfo ''/x'' 0)),
        CacheAddEnv (EnvInfo ''/a'' 0),
        CacheUpdateEnv (Some (EnvInfo ''/x'' 0)) (Some (EnvInfo ''/a'' 1))]
   \<and> cache revised_later = [EnvInfo ''/a'' 0]"
  by code_simp

section \<open>Logging\<close>

text \<open>
  C10. \<^verbatim>\<open>logVerbose\<close> and \<^verbatim>\<open>logInfo\<close> are the same function: both pass their
  arguments to \<^verbatim>\<open>logToAll\<close> with the global logger at the level \<^verbatim>\<open>Info\<close>.
\<close>

theorem logVerbose_is_logInfo:
  "logVerbose logToAll args w = logInfo logToAll args w
   \<and> logVerbose = (logInfo :: (logger list \<Rightarrow> LogLevel \<Rightarrow> Arguments \<Rightarrow> 'w \<Rightarrow> 'w) \<Rightarrow> Arguments \<Rightarrow> 'w \<Rightarrow> 'w)
   \<and> logInfo logToAll args w = logToAll [globalLogger] Info args w"
  by (simp add: fun_eq_iff logVerbose_def logInfo_def log_def)

section \<open>Reactions and jobs\<close>

lemma owner_resume:
  "expected s p r \<Longrightarrow> Inl n \<in> set (owner r) \<Longrightarrow>
     n < refreshes s \<and>
     (p = NextP n (nexts (drains s n)) \<and> phase_of (drains s n) = Iterating
        \<and> r = Reaction (Some (Resume n AfterNext)) (Some (Resume n AfterNext)) None
      \<or> p = UpdatesDoneP n \<and> phase_of (drains s n) = AwaitingUpdates
        \<and> r = Reaction (Some (Resume n AfterUpdatesDone)) (Some (Resume n AfterUpdatesDone)) None
      \<or> p = ValidateP n \<and> phase_of (drains s n) = Validating
        \<and> r = Reaction (Some (Resume n AfterValidate)) (Some (Resume n AfterValidate)) None)"
  by (cases p) auto

lemma owner_chained:
  "expected s p r \<Longrightarrow> Inr m \<in> set (owner r) \<Longrightarrow>
     m < changes s \<and> started s m = None \<and> awaited s m = Some p
     \<and> (\<exists>q. r = Reaction (Some (StartChained m q)) None (Some (ChainedP m)))"
  by (cases p) auto

lemma owner_pins:
  assumes "expected s p r" "expected s p' r'" "K \<in> set (owner r)" "K \<in> set (owner r')"
  shows "p = p'"
proof (cases K)
  case (Inl n)
  from owner_resume [of s p r n] owner_resume [of s p' r' n] assms Inl show ?thesis by auto
next
  case (Inr m)
  from owner_chained [of s p r m] owner_chained [of s p' r' m] assms Inr show ?thesis by auto
qed

lemma expected_cong:
  "refreshes s' = refreshes s \<Longrightarrow> changes s' = changes s \<Longrightarrow> resolves s' = resolves s \<Longrightarrow>
   drains s' = drains s \<Longrightarrow> started s' = started s \<Longrightarrow> awaited s' = awaited s \<Longrightarrow>
   expected s' p r = expected s p r"
  by (cases p) simp_all

lemma expected_primitives [simp]:
  "expected (settle q st s) p r = expected s p r"
  "expected (performThen q r' s) p r = expected s p r"
  "expected (enqueue j s) p r = expected s p r"
  "expected (emit e s) p r = expected s p r"
  "expected (resolve_with q c s) p r = expected s p r"
  "expected (s\<lparr>jobs := js\<rparr>) p r = expected s p r"
  "expected (s\<lparr>cache := ca\<rparr>) p r = expected s p r"
  "expected (s\<lparr>refreshPromises := rp\<rparr>) p r = expected s p r"
  by (rule expected_cong; simp)+

lemma job_owners_simps [simp]:
  "job_owners (enqueue j s) = job_owners s @ job_owner j"
  "job_owners (emit e s) = job_owners s"
  "job_owners (upd_drain n f s) = job_owners s"
  by (simp_all add: job_owners_def)

lemma reaction_owners_simps [simp]:
  "reaction_owners (enqueue j s) = reaction_owners s"
  "reaction_owners (emit e s) = reaction_owners s"
  "reaction_owners (upd_drain n f s) = reaction_owners s"
  by (simp_all add: reaction_owners_def fun_eq_iff)

lemma core_settle:
  assumes c: "core s" and st: "st \<noteq> Pending"
  shows "core (settle p st s)"
proof (cases "promises s p = Pending")
  case False
  then have "settle p st s = s" by (simp add: settle_def)
  with c show ?thesis by simp
next
  case True
  from c have j: "jobs_ok s" and r: "reactions_ok s" and ow: "owners_ok s" and l: "links_ok s"
    by (simp_all add: core_def)
  have j': "jobs_ok (settle p st s)"
    unfolding jobs_ok_def
  proof
    fix x assume "x \<in> set (jobs (settle p st s))"
    then consider "x \<in> set (jobs s)" | r' where "r' \<in> set (reactions s p)" "x = ReactionJob p r' st"
      using True by (auto simp: settle_jobs)
    then show "job_ok (settle p st s) x"
    proof cases
      case 1
      with j have "job_ok s x" by (simp add: jobs_ok_def)
      then show ?thesis using True by (cases x) (auto simp: settle_promises)
    next
      case 2
      with r have "expected s p r'" by (simp add: reactions_ok_def)
      with 2 st True show ?thesis by (simp add: settle_promises)
    qed
  qed
  have r': "reactions_ok (settle p st s)"
    using r True by (auto simp: reactions_ok_def settle_reactions settle_promises)
  have disj: "set (job_owners s) \<inter> set (reaction_owners s p) = {}"
  proof (rule ccontr)
    assume "set (job_owners s) \<inter> set (reaction_owners s p) \<noteq> {}"
    then obtain K x r' where x: "x \<in> set (jobs s)" "K \<in> set (job_owner x)"
      and r': "r' \<in> set (reactions s p)" "K \<in> set (owner r')"
      by (auto simp: job_owners_def reaction_owners_def)
    have "K \<in> set (job_owner x) \<Longrightarrow> \<exists>src r0 st0. x = ReactionJob src r0 st0"
      by (cases x) simp_all
    with x obtain src r0 st0 where x0: "x = ReactionJob src r0 st0" by blast
    from x j x0 have e0: "expected s src r0" "promises s src \<noteq> Pending"
      by (auto simp: jobs_ok_def)
    from r r' have e1: "expected s p r'" by (simp add: reactions_ok_def)
    from owner_pins [OF e0(1) e1] x x0 r' have "src = p" by simp
    with e0 True show False by simp
  qed
  have jo: "job_owners (settle p st s) = job_owners s @ reaction_owners s p"
    using True by (simp add: job_owners_def reaction_owners_def settle_jobs comp_def)
  have ro: "\<And>q. reaction_owners (settle p st s) q = (if q = p then [] else reaction_owners s q)"
    using True by (simp add: reaction_owners_def settle_reactions)
  have o': "owners_ok (settle p st s)"
    using ow disj by (simp add: owners_ok_def jo ro)
  have keep: "\<And>h v. promises s h = Fulfilled v \<Longrightarrow> promises (settle p st s) h = Fulfilled v"
    using True by (auto simp: settle_promises)
  have l': "links_ok (settle p st s)"
    unfolding links_ok_def
  proof (intro conjI allI impI)
    fix m n h assume a: "started (settle p st s) m = Some n" "awaited (settle p st s) m = Some h"
    with l obtain v where "promises s h = Fulfilled v" unfolding links_ok_def by fastforce
    then show "\<exists>v. promises (settle p st s) h = Fulfilled v" using keep by blast
  qed (use l in \<open>auto simp: links_ok_def\<close>)
  from j' r' o' l' show ?thesis by (simp add: core_def)
qed

lemma distinct_owner [simp]: "distinct (owner r)"
  by (cases r rule: owner.cases) simp_all

lemma owner_adopt [simp]: "owner (Reaction (Some (ResolveWith d)) r d') = []"
  by simp

lemma present_expected: "core s \<Longrightarrow> present s p r \<Longrightarrow> expected s p r"
  by (fastforce simp: present_def core_def jobs_ok_def reactions_ok_def)

lemma core_performThen:
  assumes c: "core s" and e: "expected s p r" and f: "owner_free s r"
  shows "core (performThen p r s)"
proof (cases "promises s p = Pending")
  case True
  have ro: "\<And>q. reaction_owners (performThen p r s) q =
      (if q = p then reaction_owners s p @ owner r else reaction_owners s q)"
    using True by (simp add: reaction_owners_def performThen_reactions)
  have jo: "job_owners (performThen p r s) = job_owners s"
    using True by (simp add: job_owners_def performThen_jobs)
  have "jobs_ok (performThen p r s)"
    using c True by (auto simp: core_def jobs_ok_def performThen_jobs elim!: job_ok.elims)
  moreover have "reactions_ok (performThen p r s)"
    using c e True by (auto simp: core_def reactions_ok_def performThen_reactions)
  moreover have "owners_ok (performThen p r s)"
    using c f by (auto simp: core_def owners_ok_def owner_free_def ro jo)
  moreover have "links_ok (performThen p r s)"
    using c by (simp add: core_def links_ok_def)
  ultimately show ?thesis by (simp add: core_def)
next
  case False
  have ro: "\<And>q. reaction_owners (performThen p r s) q = reaction_owners s q"
    using False by (simp add: reaction_owners_def performThen_reactions)
  have jo: "job_owners (performThen p r s) = job_owners s @ owner r"
    using False by (simp add: job_owners_def performThen_jobs)
  have "jobs_ok (performThen p r s)"
    using c e False by (auto simp: core_def jobs_ok_def performThen_jobs elim!: job_ok.elims)
  moreover have "reactions_ok (performThen p r s)"
    using c False by (auto simp: core_def reactions_ok_def performThen_reactions)
  moreover have "owners_ok (performThen p r s)"
    using c f by (auto simp: core_def owners_ok_def owner_free_def ro jo)
  moreover have "links_ok (performThen p r s)"
    using c by (simp add: core_def links_ok_def)
  ultimately show ?thesis by (simp add: core_def)
qed

lemma core_enqueue_thenable:
  assumes c: "core s"
    and e: "expected s t (Reaction (Some (ResolveWith d)) (Some (RejectWith d)) None)"
  shows "core (enqueue (ThenableJob d t) s)"
proof -
  have "jobs_ok (enqueue (ThenableJob d t) s)"
    using c e by (auto simp: core_def jobs_ok_def elim!: job_ok.elims)
  moreover have "reactions_ok (enqueue (ThenableJob d t) s)"
    using c by (auto simp: core_def reactions_ok_def)
  moreover have "owners_ok (enqueue (ThenableJob d t) s)"
    using c by (auto simp: core_def owners_ok_def)
  moreover have "links_ok (enqueue (ThenableJob d t) s)"
    using c by (simp add: core_def links_ok_def)
  ultimately show ?thesis by (simp add: core_def)
qed

lemma job_ok_cong:
  "promises s' = promises s \<Longrightarrow> (\<And>p r. expected s' p r = expected s p r) \<Longrightarrow>
   job_ok s' j = job_ok s j"
  by (cases j) simp_all

lemma core_dequeue:
  assumes c: "core s" and j: "jobs s = j # js"
  shows "core (s\<lparr>jobs := js\<rparr>)"
proof -
  have "jobs_ok (s\<lparr>jobs := js\<rparr>)"
    using c j by (simp add: core_def jobs_ok_def job_ok_cong [of "s\<lparr>jobs := js\<rparr>" s])
  moreover have "reactions_ok (s\<lparr>jobs := js\<rparr>)"
    using c by (simp add: core_def reactions_ok_def)
  moreover have "owners_ok (s\<lparr>jobs := js\<rparr>)"
    using c j by (simp add: core_def owners_ok_def job_owners_def reaction_owners_def)
  moreover have "links_ok (s\<lparr>jobs := js\<rparr>)"
    using c by (simp add: core_def links_ok_def)
  ultimately show ?thesis by (simp add: core_def)
qed

lemma head_job_ok: "core s \<Longrightarrow> jobs s = j # js \<Longrightarrow> job_ok s j"
  by (simp add: core_def jobs_ok_def)

text \<open>The key of the job that runs is held by nothing else.\<close>

lemma dequeue_free:
  assumes c: "core s" and j: "jobs s = ReactionJob src r st # js"
  shows "owner_free (s\<lparr>jobs := js\<rparr>) r"
  unfolding owner_free_def
proof (intro ballI conjI allI)
  fix K assume K: "K \<in> set (owner r)"
  from c j have d: "distinct (owner r @ concat (map job_owner js))"
    by (simp add: core_def owners_ok_def job_owners_def)
  then show "K \<notin> set (job_owners (s\<lparr>jobs := js\<rparr>))"
    using K by (auto simp: job_owners_def)
  from head_job_ok [OF c j] have e: "expected s src r" "promises s src \<noteq> Pending" by auto
  fix p
  show "K \<notin> set (reaction_owners (s\<lparr>jobs := js\<rparr>) p)"
  proof
    assume "K \<in> set (reaction_owners (s\<lparr>jobs := js\<rparr>) p)"
    then obtain r' where r': "r' \<in> set (reactions s p)" "K \<in> set (owner r')"
      by (auto simp: reaction_owners_def)
    with c have e': "expected s p r'" "promises s p = Pending"
      by (auto simp: core_def reactions_ok_def)
    from owner_pins [OF e(1) e'(1) K r'(2)] e e' show False by simp
  qed
qed

lemma present_dequeue: "jobs s = j # js \<Longrightarrow> present (s\<lparr>jobs := js\<rparr>) p r \<Longrightarrow> present s p r"
  by (auto simp: present_def)

lemma present_owner:
  "present s p r \<Longrightarrow> K \<in> set (owner r) \<Longrightarrow>
     K \<in> set (job_owners s) \<or> K \<in> set (reaction_owners s p)"
  by (force simp: present_def job_owners_def reaction_owners_def)

text \<open>
  Once the continuation of a drain has been taken from the queue, nothing in the queue or
  registered on a promise depends on the control state of that drain.
\<close>

lemma resume_quiet:
  assumes c: "core s" and j: "jobs s = ReactionJob src r st # js"
    and K: "Inl n \<in> set (owner r)" and p: "present (s\<lparr>jobs := js\<rparr>) p r'"
  shows "drain_of p \<noteq> Some n"
proof
  assume d: "drain_of p = Some n"
  from head_job_ok [OF c j] have e: "expected s src r" by simp
  from present_expected [OF c present_dequeue [OF j p]] have e': "expected s p r'" .
  from owner_resume [OF e K] have ph: "phase_of (drains s n) \<noteq> Returned" by auto
  from d e' ph have "Inl n \<in> set (owner r')"
    by (cases p) auto
  with present_owner [OF p] dequeue_free [OF c j] K show False
    by (auto simp: owner_free_def)
qed

lemma chained_quiet:
  assumes c: "core s" and j: "jobs s = ReactionJob src r st # js"
    and K: "Inr m \<in> set (owner r)" and p: "present (s\<lparr>jobs := js\<rparr>) p r'"
  shows "Inr m \<notin> set (owner r')"
  using present_owner [OF p] dequeue_free [OF c j] K by (auto simp: owner_free_def)

lemma expected_frame:
  assumes e: "expected s p r"
    and cnt: "refreshes s \<le> refreshes s'" "changes s \<le> changes s'" "resolves s \<le> resolves s'"
    and dr: "\<And>n. drain_of p = Some n \<Longrightarrow>
        phase_of (drains s' n) = phase_of (drains s n) \<and> nexts (drains s' n) = nexts (drains s n)"
    and aw: "\<And>m. m < changes s \<Longrightarrow> awaited s' m = awaited s m"
    and st: "\<And>m n. started s m = Some n \<Longrightarrow> started s' m = Some n"
    and st0: "\<And>m. Inr m \<in> set (owner r) \<Longrightarrow> started s' m = None"
  shows "expected s' p r"
proof (cases p)
  case (StartRefreshP n)
  with e cnt show ?thesis
    apply simp
    apply (elim conjE disjE exE)
      apply simp
     apply (rule disjI2)
     apply (rule_tac x = m in exI)
     apply (simp add: aw st)
    apply (rule disjI2)
    apply (rule_tac x = m in exI)
    apply (simp add: aw st)
    done
next
  case (DeferredP n)
  with e cnt show ?thesis
    apply simp
    apply (elim conjE exE)
    apply (rule_tac x = m in exI)
    apply (simp add: aw)
    apply (rule st0)
    apply simp
    done
next
  case (ChainedP m)
  with e cnt aw [of m] show ?thesis by auto
qed (use e cnt dr in \<open>auto\<close>)

lemma core_frame:
  assumes c: "core s"
    and same: "jobs s' = jobs s" "reactions s' = reactions s" "promises s' = promises s"
    and cnt: "refreshes s \<le> refreshes s'" "changes s \<le> changes s'" "resolves s \<le> resolves s'"
    and dr: "\<And>p r n. present s p r \<Longrightarrow> drain_of p = Some n \<Longrightarrow>
        phase_of (drains s' n) = phase_of (drains s n) \<and> nexts (drains s' n) = nexts (drains s n)"
    and aw: "\<And>m. m < changes s \<Longrightarrow> awaited s' m = awaited s m"
    and st: "\<And>m n. started s m = Some n \<Longrightarrow> started s' m = Some n"
    and st0: "\<And>p r m. present s p r \<Longrightarrow> Inr m \<in> set (owner r) \<Longrightarrow> started s' m = None"
    and links: "links_ok s'"
  shows "core s'"
proof -
  have ex: "\<And>p r. present s p r \<Longrightarrow> expected s' p r"
  proof -
    fix p r assume p: "present s p r"
    show "expected s' p r"
      by (rule expected_frame [OF present_expected [OF c p] cnt dr [OF p] aw st st0 [OF p]])
  qed
  have "jobs_ok s'"
    unfolding jobs_ok_def
  proof
    fix j assume j: "j \<in> set (jobs s')"
    with c same have ok: "job_ok s j" by (simp add: core_def jobs_ok_def)
    show "job_ok s' j"
    proof (cases j)
      case (ReactionJob src r st)
      with j same have "present s src r" by (auto simp: present_def)
      from ex [OF this] ok ReactionJob same show ?thesis by simp
    next
      case (ThenableJob d t)
      with j same have
        "present s t (Reaction (Some (ResolveWith d)) (Some (RejectWith d)) None)"
        by (auto simp: present_def)
      from ex [OF this] ThenableJob show ?thesis by simp
    qed
  qed
  moreover have "reactions_ok s'"
    using c same ex by (auto simp: core_def reactions_ok_def present_def)
  moreover have "owners_ok s'"
    using c same by (simp add: core_def owners_ok_def job_owners_def reaction_owners_def)
  ultimately show ?thesis using links by (simp add: core_def)
qed

lemma reactions_okD:
  "core s \<Longrightarrow> r \<in> set (reactions s p) \<Longrightarrow> expected s p r \<and> promises s p = Pending"
  by (simp add: core_def reactions_ok_def)

section \<open>Settled promises, recorded calls and drains\<close>

lemma created_cong:
  "refreshes s' = refreshes s \<Longrightarrow> changes s' = changes s \<Longrightarrow> resolves s' = resolves s \<Longrightarrow>
   created s' p = created s p"
  by (induction p) simp_all

lemma created_mono:
  "created s p \<Longrightarrow> refreshes s \<le> refreshes s' \<Longrightarrow> changes s \<le> changes s' \<Longrightarrow>
   resolves s \<le> resolves s' \<Longrightarrow> created s' p"
  by (induction p) simp_all

lemma created_primitives [simp]:
  "created (settle q st s) p = created s p"
  "created (performThen q r' s) p = created s p"
  "created (enqueue j s) p = created s p"
  "created (emit e s) p = created s p"
  "created (upd_drain n f s) p = created s p"
  "created (s\<lparr>jobs := js\<rparr>) p = created s p"
  by (rule created_cong; simp)+

text \<open>What justifies a settled promise stays true: promises are settled once.\<close>

lemma just_frame:
  assumes j: "just s p st"
    and pr: "\<And>q. promises s q \<noteq> Pending \<Longrightarrow> promises s' q = promises s q"
    and ef: "set (effects s) \<subseteq> set (effects s')"
    and st: "\<And>m n. started s m = Some n \<Longrightarrow> started s' m = Some n"
    and up: "hasOnUpdated s' = hasOnUpdated s"
    and dn: "\<And>n. p = UpdatesDoneP n \<Longrightarrow> state_done (drains s n) \<Longrightarrow> state_done (drains s' n)"
  shows "just s' p st"
proof (cases p)
  case (ChainedP m)
  with j show ?thesis by (auto dest!: st simp: pr)
next
  case (NewRefreshP m)
  with j show ?thesis by (auto dest!: st simp: pr)
next
  case (AddEnvsP n)
  have keep: "\<And>q e. promises s q = Rejected e \<Longrightarrow> promises s' q = Rejected e"
    using pr by simp
  from j AddEnvsP ef show ?thesis
    by (simp add: subset_iff) (blast intro: keep)
qed (use j pr ef up dn in \<open>auto\<close>)

lemma promises_ok_settle:
  assumes ok: "promises_ok s" and c: "created s p" and j: "just s p st"
  shows "promises_ok (settle p st s)"
proof (cases "promises s p = Pending")
  case False
  then have "settle p st s = s" by (simp add: settle_def)
  with ok show ?thesis by simp
next
  case True
  have fr: "\<And>q st'. just s q st' \<Longrightarrow> just (settle p st s) q st'"
    by (erule just_frame) (use True in \<open>auto simp: settle_promises\<close>)
  show ?thesis
    unfolding promises_ok_def
  proof (intro allI impI)
    fix q assume q: "promises (settle p st s) q \<noteq> Pending"
    show "created (settle p st s) q \<and> just (settle p st s) q (promises (settle p st s) q)"
    proof (cases "q = p")
      case True
      with c j fr \<open>promises s p = Pending\<close> show ?thesis by (simp add: settle_promises)
    next
      case False
      with q \<open>promises s p = Pending\<close> have "promises s q \<noteq> Pending"
        and "promises (settle p st s) q = promises s q"
        by (simp_all add: settle_promises)
      with ok fr show ?thesis by (simp add: promises_ok_def)
    qed
  qed
qed

lemma promises_ok_frame:
  assumes ok: "promises_ok s"
    and pr: "promises s' = promises s"
    and cnt: "refreshes s \<le> refreshes s'" "changes s \<le> changes s'" "resolves s \<le> resolves s'"
    and ef: "set (effects s) \<subseteq> set (effects s')"
    and st: "\<And>m n. started s m = Some n \<Longrightarrow> started s' m = Some n"
    and up: "hasOnUpdated s' = hasOnUpdated s"
    and dn: "\<And>n. promises s (UpdatesDoneP n) \<noteq> Pending \<Longrightarrow> state_done (drains s n) \<Longrightarrow>
               state_done (drains s' n)"
  shows "promises_ok s'"
  unfolding promises_ok_def
proof (intro allI impI)
  fix p assume "promises s' p \<noteq> Pending"
  with pr have p: "promises s p \<noteq> Pending" by simp
  with ok have c: "created s p" and j: "just s p (promises s p)" by (simp_all add: promises_ok_def)
  have "just s' p (promises s p)"
    by (rule just_frame [OF j]) (use pr ef st up dn p in \<open>auto\<close>)
  with created_mono [OF c cnt] pr show "created s' p \<and> just s' p (promises s' p)" by simp
qed

lemma exhausted_settle: "exhausted s n \<Longrightarrow> exhausted (settle p st s) n"
  by (auto simp: exhausted_def settle_promises)

lemma effects_ok_settle: "effects_ok s \<Longrightarrow> effects_ok (settle p st s)"
  unfolding effects_ok_def
  by (intro conjI allI impI) (auto simp: settle_promises exhausted_def)

lemma drains_ok_settle: "drains_ok s \<Longrightarrow> drains_ok (settle p st s)"
  unfolding drains_ok_def
  by (intro conjI allI impI) (auto simp: settle_promises exhausted_def)

lemma inv_settle:
  "inv s \<Longrightarrow> st \<noteq> Pending \<Longrightarrow> created s p \<Longrightarrow> just s p st \<Longrightarrow> inv (settle p st s)"
  by (simp add: inv_def core_settle promises_ok_settle effects_ok_settle drains_ok_settle)

section \<open>Changes that keep the invariant\<close>

lemma inv_parts:
  "inv s \<Longrightarrow> core s" "inv s \<Longrightarrow> promises_ok s" "inv s \<Longrightarrow> effects_ok s" "inv s \<Longrightarrow> drains_ok s"
  by (simp_all add: inv_def)

lemma promises_okD:
  "promises_ok s \<Longrightarrow> promises s p \<noteq> Pending \<Longrightarrow> created s p \<and> just s p (promises s p)"
  by (simp add: promises_ok_def)

lemma pending_updatesDone:
  assumes "inv s" "listening (drains s n)"
  shows "promises s (UpdatesDoneP n) = Pending"
proof (rule ccontr)
  assume "promises s (UpdatesDoneP n) \<noteq> Pending"
  from promises_okD [OF inv_parts(2) [OF assms(1)] this] assms
  show False by (auto simp: inv_def drains_ok_def)
qed

lemma present_started_None:
  "core s \<Longrightarrow> present s p r \<Longrightarrow> Inr m \<in> set (owner r) \<Longrightarrow> started s m = None"
  using owner_chained present_expected by blast

text \<open>A change that leaves promises, queue, counters and links alone.\<close>

lemma core_frame_drains:
  assumes c: "core s"
    and same: "jobs s' = jobs s" "reactions s' = reactions s" "promises s' = promises s"
      "refreshes s' = refreshes s" "changes s' = changes s" "resolves s' = resolves s"
      "started s' = started s" "awaited s' = awaited s" "refreshPromises s' = refreshPromises s"
    and dr: "\<And>p r n. present s p r \<Longrightarrow> drain_of p = Some n \<Longrightarrow>
        phase_of (drains s' n) = phase_of (drains s n) \<and> nexts (drains s' n) = nexts (drains s n)"
  shows "core s'"
proof (rule core_frame [OF c])
  show "links_ok s'" using c same by (simp add: core_def links_ok_def)
  show "\<And>p r m. present s p r \<Longrightarrow> Inr m \<in> set (owner r) \<Longrightarrow> started s' m = None"
    using present_started_None [OF c] same by simp
qed (use same dr in \<open>auto\<close>)

text \<open>A change of a drain's data that leaves its control state alone.\<close>

lemma inv_upd_drain_data:
  assumes i: "inv s"
    and ph: "phase_of (f (drains s n)) = phase_of (drains s n)"
            "nexts (f (drains s n)) = nexts (drains s n)"
    and pe: "state_pending (f (drains s n)) = 0"
    and dn: "state_done (f (drains s n)) = state_done (drains s n)"
    and li: "listening (f (drains s n)) \<longrightarrow> listening (drains s n)"
  shows "inv (upd_drain n f s)"
proof -
  have "core (upd_drain n f s)"
    by (rule core_frame_drains [OF inv_parts(1) [OF i]]) (use ph in \<open>auto\<close>)
  moreover have "promises_ok (upd_drain n f s)"
    by (rule promises_ok_frame [OF inv_parts(2) [OF i]]) (use dn in \<open>auto\<close>)
  moreover have "effects_ok (upd_drain n f s)"
    using inv_parts(3) [OF i] ph unfolding effects_ok_def exhausted_def by auto
  moreover have "drains_ok (upd_drain n f s)"
    using inv_parts(4) [OF i] ph pe dn li unfolding drains_ok_def exhausted_def by auto
  ultimately show ?thesis by (simp add: inv_def)
qed

lemma inv_cache: "inv s \<Longrightarrow> inv (s\<lparr>cache := c\<rparr>)"
proof -
  assume i: "inv s"
  have "core (s\<lparr>cache := c\<rparr>)"
    by (rule core_frame_drains [OF inv_parts(1) [OF i]]) auto
  moreover have "promises_ok (s\<lparr>cache := c\<rparr>)"
    by (rule promises_ok_frame [OF inv_parts(2) [OF i]]) auto
  moreover have "effects_ok (s\<lparr>cache := c\<rparr>)"
    using inv_parts(3) [OF i] unfolding effects_ok_def exhausted_def by auto
  moreover have "drains_ok (s\<lparr>cache := c\<rparr>)"
    using inv_parts(4) [OF i] unfolding drains_ok_def exhausted_def by auto
  ultimately show ?thesis by (simp add: inv_def)
qed

lemma inv_emit_harmless:
  assumes i: "inv s" and h: "harmless e"
  shows "inv (emit e s)"
proof -
  have "core (emit e s)"
    by (rule core_frame_drains [OF inv_parts(1) [OF i]]) auto
  moreover have "promises_ok (emit e s)"
    by (rule promises_ok_frame [OF inv_parts(2) [OF i]]) auto
  moreover have "effects_ok (emit e s)"
    using inv_parts(3) [OF i] h unfolding effects_ok_def exhausted_def
    by (cases e rule: harmless.cases) auto
  moreover have "drains_ok (emit e s)"
    using inv_parts(4) [OF i] unfolding drains_ok_def exhausted_def by auto
  ultimately show ?thesis by (simp add: inv_def)
qed

lemma inv_onUpdated_listener:
  assumes i: "inv s" and l: "listening (drains s n)"
  shows "inv (onUpdated_listener n event s)"
proof (cases event)
  case None
  from i l have f: "n < refreshes s" "hasOnUpdated s n" "\<not> state_done (drains s n)"
    "state_pending (drains s n) = 0"
    by (auto simp: inv_def drains_ok_def)
  let ?s1 = "upd_drain n (\<lambda>d. d\<lparr>state_done := True, listening := False\<rparr>) s"
  have eq: "onUpdated_listener n event s = settle (UpdatesDoneP n) (Fulfilled Undefined) ?s1"
    using None f by (simp add: onUpdated_listener_def)
  have c1: "core ?s1"
    by (rule core_frame_drains [OF inv_parts(1) [OF i]]) auto
  have p1: "promises_ok ?s1"
    by (rule promises_ok_frame [OF inv_parts(2) [OF i]]) auto
  have e1: "effects_ok ?s1"
    using inv_parts(3) [OF i] unfolding effects_ok_def exhausted_def by auto
  have pend: "promises s (UpdatesDoneP n) = Pending"
    by (rule pending_updatesDone [OF i l])
  have d2: "drains_ok (settle (UpdatesDoneP n) (Fulfilled Undefined) ?s1)"
    using inv_parts(4) [OF i] pend unfolding drains_ok_def exhausted_def
    by (auto simp: settle_promises)
  have "core (settle (UpdatesDoneP n) (Fulfilled Undefined) ?s1)"
    by (rule core_settle [OF c1]) simp
  moreover have "promises_ok (settle (UpdatesDoneP n) (Fulfilled Undefined) ?s1)"
    by (rule promises_ok_settle [OF p1]) (use f in \<open>auto\<close>)
  moreover have "effects_ok (settle (UpdatesDoneP n) (Fulfilled Undefined) ?s1)"
    by (rule effects_ok_settle [OF e1])
  ultimately show ?thesis using d2 eq by (simp add: inv_def)
next
  case (Some ev)
  from i l have f: "\<not> state_done (drains s n)" "state_pending (drains s n) = 0"
    by (auto simp: inv_def drains_ok_def)
  define old where "old = js_index (seen (drains s n)) (index ev)"
  define g where "g = (\<lambda>d::drain. case update ev of None \<Rightarrow> d
     | Some u \<Rightarrow> d\<lparr>seen := js_assign (seen d) (index ev) u\<rparr>)"
  have eq: "onUpdated_listener n event s =
      upd_drain n g (emit (CacheUpdateEnv old (update ev))
        (s\<lparr>cache := updateEnv old (update ev) (cache s)\<rparr>))"
    using Some f
    by (cases "update ev")
       (simp_all add: onUpdated_listener_def Let_def old_def g_def upd_drain_def emit_def
          fun_eq_iff)
  have "inv (emit (CacheUpdateEnv old (update ev)) (s\<lparr>cache := updateEnv old (update ev) (cache s)\<rparr>))"
    by (intro inv_emit_harmless inv_cache i) simp
  then show ?thesis
    unfolding eq
    by (rule inv_upd_drain_data) (use f in \<open>auto simp: g_def split: option.splits\<close>)
qed

lemma owner_free_iff: "owner_free s r = (\<forall>K \<in> set (owner r). key_free s K)"
  by (simp add: owner_free_def key_free_def)

lemma key_free_cong:
  "jobs s' = jobs s \<Longrightarrow> reactions s' = reactions s \<Longrightarrow> key_free s' K = key_free s K"
  by (simp add: key_free_def job_owners_def reaction_owners_def)

lemma key_free_simps [simp]:
  "key_free (emit e s) K = key_free s K"
  "key_free (upd_drain n f s) K = key_free s K"
  "key_free (s\<lparr>cache := c\<rparr>) K = key_free s K"
  "key_free (s\<lparr>refreshPromises := rp\<rparr>) K = key_free s K"
  "key_free (s\<lparr>started := sa\<rparr>) K = key_free s K"
  by (rule key_free_cong; simp)+

lemma key_free_settle: "key_free s K \<Longrightarrow> key_free (settle p st s) K"
  by (auto simp: key_free_def job_owners_def reaction_owners_def settle_jobs settle_reactions
      comp_def)

lemma key_free_performThen:
  "key_free s K \<Longrightarrow> K \<notin> set (owner r) \<Longrightarrow> key_free (performThen p r s) K"
  by (auto simp: key_free_def job_owners_def reaction_owners_def performThen_jobs
      performThen_reactions)

lemma key_free_enqueue_thenable: "key_free s K \<Longrightarrow> key_free (enqueue (ThenableJob d t) s) K"
  by (auto simp: key_free_def)

lemma key_free_resolve_with: "key_free s K \<Longrightarrow> key_free (resolve_with p c s) K"
  by (cases c) (simp_all add: key_free_settle key_free_enqueue_thenable)

lemma key_used:
  assumes c: "core s" and u: "\<not> key_free s K"
  shows "\<exists>p r. present s p r \<and> K \<in> set (owner r)"
proof -
  from u consider j where "j \<in> set (jobs s)" "K \<in> set (job_owner j)"
    | p r where "r \<in> set (reactions s p)" "K \<in> set (owner r)"
    by (auto simp: key_free_def job_owners_def reaction_owners_def)
  then show ?thesis
  proof cases
    case 1
    have "K \<in> set (job_owner j) \<Longrightarrow> \<exists>src r0 st0. j = ReactionJob src r0 st0"
      by (cases j) simp_all
    with 1 obtain src r0 st0 where "j = ReactionJob src r0 st0" by blast
    with 1 show ?thesis by (auto simp: present_def)
  next
    case 2
    then show ?thesis by (auto simp: present_def)
  qed
qed

lemma fresh_drain_key: "core s \<Longrightarrow> \<not> n < refreshes s \<Longrightarrow> key_free s (Inl n)"
  using key_used owner_resume present_expected by blast

lemma fresh_change_key: "core s \<Longrightarrow> \<not> m < changes s \<Longrightarrow> key_free s (Inr m)"
  using key_used owner_chained present_expected by blast

lemma present_key: "present s p r \<Longrightarrow> K \<in> set (owner r) \<Longrightarrow> \<not> key_free s K"
  using present_owner by (fastforce simp: key_free_def)

lemma present_created: "core s \<Longrightarrow> present s p r \<Longrightarrow> created s p"
  by (drule (1) present_expected, cases p) auto

lemma facts_cong:
  assumes "promises s' = promises s" "effects s' = effects s" "drains s' = drains s"
    "refreshes s' = refreshes s" "changes s' = changes s" "resolves s' = resolves s"
    "hasOnUpdated s' = hasOnUpdated s" "started s' = started s"
  shows "promises_ok s' = promises_ok s" "effects_ok s' = effects_ok s" "drains_ok s' = drains_ok s"
proof -
  have c: "\<And>p. created s' p = created s p" by (rule created_cong) (use assms in \<open>auto\<close>)
  have j: "\<And>p st. just s' p st = just s p st"
  proof -
    fix p st show "just s' p st = just s p st" by (cases p) (use assms in \<open>auto\<close>)
  qed
  show "promises_ok s' = promises_ok s" by (simp add: promises_ok_def c j assms)
  show "effects_ok s' = effects_ok s" by (simp add: effects_ok_def exhausted_def assms)
  show "drains_ok s' = drains_ok s" by (simp add: drains_ok_def exhausted_def assms)
qed

lemma inv_performThen:
  assumes i: "inv s" and e: "expected s p r" and f: "owner_free s r"
  shows "inv (performThen p r s)"
  using i core_performThen [OF inv_parts(1) [OF i] e f] facts_cong [of "performThen p r s" s]
  by (simp add: inv_def)

lemma inv_enqueue_thenable:
  assumes i: "inv s"
    and e: "expected s t (Reaction (Some (ResolveWith d)) (Some (RejectWith d)) None)"
  shows "inv (enqueue (ThenableJob d t) s)"
  using i core_enqueue_thenable [OF inv_parts(1) [OF i] e]
    facts_cong [of "enqueue (ThenableJob d t) s" s]
  by (simp add: inv_def)

lemma inv_dequeue:
  assumes i: "inv s" and j: "jobs s = j # js"
  shows "inv (s\<lparr>jobs := js\<rparr>)"
  using i core_dequeue [OF inv_parts(1) [OF i] j] facts_cong [of "s\<lparr>jobs := js\<rparr>" s]
  by (simp add: inv_def)

lemma set_update_cases:
  "(q, p) \<in> set (AList.update k v al) \<Longrightarrow> (q, p) = (k, v) \<or> (q, p) \<in> set al"
  by (induction al) (auto split: if_splits)

lemma set_delete_subset: "(q, p) \<in> set (AList.delete k al) \<Longrightarrow> (q, p) \<in> set al"
  by (simp add: AList.delete_eq)

lemma startRefresh_unfold:
  "snd (startRefresh query s) =
     enqueue (ThenableJob (StartRefreshP (refreshes s)) (CatchP (refreshes s)))
       (performThen (ThenP (refreshes s))
          (Reaction None (Some (OnRefreshFailed (refreshes s))) (Some (CatchP (refreshes s))))
          (performThen (AddEnvsP (refreshes s))
             (Reaction (Some (OnRefreshDone query (refreshes s))) None (Some (ThenP (refreshes s))))
             (performThen (NextP (refreshes s) 0)
                (Reaction (Some (Resume (refreshes s) AfterNext))
                   (Some (Resume (refreshes s) AfterNext)) None)
                (subscribed query s))))"
  by (simp add: startRefresh_def Let_def js_then_def await_def addEnvsToCacheFromIterator_def
      subscribed_def allocated_def new_drain_def)

lemma allocated_fields [simp]:
  "promises (allocated q s) = promises s" "jobs (allocated q s) = jobs s"
  "reactions (allocated q s) = reactions s"
  "refreshes (allocated q s) = Suc (refreshes s)" "changes (allocated q s) = changes s"
  "resolves (allocated q s) = resolves s" "started (allocated q s) = started s"
  "awaited (allocated q s) = awaited s" "hasOnUpdated (allocated q s) = hasOnUpdated s"
  "effects (allocated q s) = effects s @ [RefreshStartFired, IterEnvs (refreshes s) q]"
  "drains (allocated q s) = (drains s)(refreshes s := new_drain (hasOnUpdated s (refreshes s)))"
  "refreshPromises (allocated q s) = AList.update q (DeferredP (refreshes s)) (refreshPromises s)"
  "cache (allocated q s) = cache s"
  by (simp_all add: allocated_def)

lemma present_drain_created:
  "core s \<Longrightarrow> present s p r \<Longrightarrow> drain_of p = Some n \<Longrightarrow> n < refreshes s"
  by (drule (1) present_created, cases p) auto

lemma core_allocated:
  assumes c: "core s"
  shows "core (allocated q s)"
proof (rule core_frame [OF c])
  show "links_ok (allocated q s)"
    using c unfolding core_def links_ok_def
    by (auto dest!: set_update_cases) (metis less_Suc_eq)+
  show "\<And>p r m. present s p r \<Longrightarrow> Inr m \<in> set (owner r) \<Longrightarrow> started (allocated q s) m = None"
    using present_started_None [OF c] by simp
  show "\<And>p r n. present s p r \<Longrightarrow> drain_of p = Some n \<Longrightarrow>
      phase_of (drains (allocated q s) n) = phase_of (drains s n)
      \<and> nexts (drains (allocated q s) n) = nexts (drains s n)"
    using present_drain_created [OF c] by auto
qed auto

lemma fresh_pending:
  "promises_ok s \<Longrightarrow> \<not> created s p \<Longrightarrow> promises s p = Pending"
  by (auto simp: promises_ok_def)

lemma promises_ok_allocated:
  assumes p: "promises_ok s"
  shows "promises_ok (allocated q s)"
proof (rule promises_ok_frame [OF p])
  show "\<And>n. promises s (UpdatesDoneP n) \<noteq> Pending \<Longrightarrow> state_done (drains s n) \<Longrightarrow>
      state_done (drains (allocated q s) n)"
    using fresh_pending [OF p, of "UpdatesDoneP (refreshes s)"] by auto
qed auto

lemma inv_subscribed:
  assumes i: "inv s"
  shows "inv (subscribed q s)"
proof -
  note p = inv_parts(2) [OF i]
  have fresh: "promises s (UpdatesDoneP (refreshes s)) = Pending"
    "\<And>j. promises s (NextP (refreshes s) j) = Pending"
    "promises s (ValidateP (refreshes s)) = Pending"
    by (rule fresh_pending [OF p]; simp)+
  have nv: "CacheValidate (refreshes s) \<notin> set (effects s)"
    "CacheFlush (refreshes s) \<notin> set (effects s)"
    using inv_parts(3) [OF i] fresh by (auto simp: effects_ok_def)
  have c: "core (subscribed q s)"
    by (simp add: subscribed_def core_allocated core_settle inv_parts(1) [OF i])
  have po: "promises_ok (subscribed q s)"
    unfolding subscribed_def
    by (auto intro!: promises_ok_settle promises_ok_allocated p)
  have e: "effects_ok (subscribed q s)"
    using inv_parts(3) [OF i] nv fresh
    unfolding effects_ok_def subscribed_def exhausted_def
    by (auto simp: settle_promises less_Suc_eq)
  have d: "drains_ok (subscribed q s)"
    using inv_parts(4) [OF i] nv fresh
    unfolding drains_ok_def subscribed_def exhausted_def
    by (auto simp: settle_promises less_Suc_eq new_drain_def)
  from c po e d show ?thesis by (simp add: inv_def)
qed

lemma key_free_allocated: "key_free (allocated q s) K = key_free s K"
  by (rule key_free_cong) simp_all

lemma key_free_subscribed: "key_free s K \<Longrightarrow> key_free (subscribed q s) K"
  by (simp add: subscribed_def key_free_settle key_free_allocated)

lemma subscribed_fields [simp]:
  "refreshes (subscribed q s) = Suc (refreshes s)" "changes (subscribed q s) = changes s"
  "resolves (subscribed q s) = resolves s" "started (subscribed q s) = started s"
  "awaited (subscribed q s) = awaited s" "hasOnUpdated (subscribed q s) = hasOnUpdated s"
  "effects (subscribed q s) = effects s @ [RefreshStartFired, IterEnvs (refreshes s) q]"
  "drains (subscribed q s) = (drains s)(refreshes s := new_drain (hasOnUpdated s (refreshes s)))"
  "refreshPromises (subscribed q s) = AList.update q (DeferredP (refreshes s)) (refreshPromises s)"
  "cache (subscribed q s) = cache s"
  by (simp_all add: subscribed_def)

lemma inv_startRefresh:
  assumes i: "inv s"
  shows "inv (snd (startRefresh q s))"
  unfolding startRefresh_unfold
proof (intro inv_enqueue_thenable inv_performThen inv_subscribed i)
  show "owner_free (subscribed q s)
     (Reaction (Some (Resume (refreshes s) AfterNext)) (Some (Resume (refreshes s) AfterNext)) None)"
    using fresh_drain_key [OF inv_parts(1) [OF i], of "refreshes s"]
    by (simp add: owner_free_iff key_free_subscribed)
qed (simp_all add: owner_free_iff new_drain_def)

lemma key_free_startRefresh:
  "key_free s K \<Longrightarrow> K \<noteq> Inl (refreshes s) \<Longrightarrow> key_free (snd (startRefresh q s)) K"
  unfolding startRefresh_unfold
  by (intro key_free_enqueue_thenable key_free_performThen key_free_subscribed) auto

lemma inv_emit:
  assumes i: "inv s" and h: "emit_ok s e"
  shows "inv (emit e s)"
proof -
  have "core (emit e s)"
    by (rule core_frame_drains [OF inv_parts(1) [OF i]]) auto
  moreover have "promises_ok (emit e s)"
    by (rule promises_ok_frame [OF inv_parts(2) [OF i]]) auto
  moreover have "effects_ok (emit e s)"
    using inv_parts(3) [OF i] h unfolding effects_ok_def
    by (cases "(s, e)" rule: emit_ok.cases) (auto simp: exhausted_def)
  moreover have "drains_ok (emit e s)"
    using inv_parts(4) [OF i] unfolding drains_ok_def exhausted_def by auto
  ultimately show ?thesis by (simp add: inv_def)
qed

lemma present_cong:
  "jobs s' = jobs s \<Longrightarrow> reactions s' = reactions s \<Longrightarrow> present s' p r = present s p r"
  by (simp add: present_def)

lemma present_simps [simp]:
  "present (emit e s) p r = present s p r"
  "present (upd_drain n' f s) p r = present s p r"
  "present (s\<lparr>cache := c\<rparr>) p r = present s p r"
  by (rule present_cong; simp)+

lemma quiet_simps [simp]:
  "quiet (emit e s) n = quiet s n"
  "quiet (upd_drain n' f s) n = quiet s n"
  "quiet (s\<lparr>cache := c\<rparr>) n = quiet s n"
  by (simp_all add: quiet_def)

text \<open>A change of the control state of a drain whose continuation is running.\<close>

lemma inv_upd_drain_control:
  assumes i: "inv s" and q: "quiet s n"
    and keep: "state_done (f (drains s n)) = state_done (drains s n)"
      "state_pending (f (drains s n)) = state_pending (drains s n)"
      "listening (f (drains s n)) = listening (drains s n)"
    and nx: "nexts (f (drains s n)) = nexts (drains s n) \<or> CacheValidate n \<notin> set (effects s)"
    and aw: "phase_of (f (drains s n)) = AwaitingUpdates \<Longrightarrow>
        promises s (NextP n (nexts (f (drains s n)))) = Fulfilled IterDone"
    and va: "phase_of (f (drains s n)) = Validating \<Longrightarrow> CacheValidate n \<in> set (effects s)"
  shows "inv (upd_drain n f s)"
proof -
  have "core (upd_drain n f s)"
  proof (rule core_frame_drains [OF inv_parts(1) [OF i]])
    fix p r n' assume "present s p r" "drain_of p = Some n'"
    with q have "n' \<noteq> n" by (auto simp: quiet_def)
    then show "phase_of (drains (upd_drain n f s) n') = phase_of (drains s n') \<and>
        nexts (drains (upd_drain n f s) n') = nexts (drains s n')" by simp
  qed simp_all
  moreover have "promises_ok (upd_drain n f s)"
  proof (rule promises_ok_frame [OF inv_parts(2) [OF i]])
    fix n' assume "state_done (drains s n')"
    with keep show "state_done (drains (upd_drain n f s) n')" by auto
  qed simp_all
  moreover have "effects_ok (upd_drain n f s)"
  proof -
    have ex: "\<And>n'. CacheValidate n' \<in> set (effects s) \<Longrightarrow> exhausted (upd_drain n f s) n'"
    proof -
      fix n' assume v: "CacheValidate n' \<in> set (effects s)"
      with inv_parts(3) [OF i] have "exhausted s n'" by (simp add: effects_ok_def)
      with v nx show "exhausted (upd_drain n f s) n'"
        by (cases "n' = n") (auto simp: exhausted_def)
    qed
    from inv_parts(3) [OF i] show ?thesis
      unfolding effects_ok_def by (simp add: ex)
  qed
  moreover have "drains_ok (upd_drain n f s)"
    unfolding drains_ok_def
  proof (intro allI)
    fix n'
    from inv_parts(4) [OF i] have d: "state_pending (drains s n') = 0"
      "listening (drains s n') \<longrightarrow> n' < refreshes s \<and> hasOnUpdated s n' \<and> \<not> state_done (drains s n')"
      "phase_of (drains s n') = AwaitingUpdates \<longrightarrow> exhausted s n'"
      "phase_of (drains s n') = Validating \<longrightarrow> CacheValidate n' \<in> set (effects s)"
      "n' < refreshes s \<and> (hasOnUpdated s n' \<longrightarrow> state_done (drains s n')) \<longrightarrow>
         promises s (UpdatesDoneP n') = Fulfilled Undefined"
      by (simp_all add: drains_ok_def)
    show "state_pending (drains (upd_drain n f s) n') = 0 \<and>
       (listening (drains (upd_drain n f s) n') \<longrightarrow>
        n' < refreshes (upd_drain n f s) \<and>
        hasOnUpdated (upd_drain n f s) n' \<and> \<not> state_done (drains (upd_drain n f s) n')) \<and>
       (phase_of (drains (upd_drain n f s) n') = AwaitingUpdates \<longrightarrow>
        exhausted (upd_drain n f s) n') \<and>
       (phase_of (drains (upd_drain n f s) n') = Validating \<longrightarrow>
        CacheValidate n' \<in> set (effects (upd_drain n f s))) \<and>
       (n' < refreshes (upd_drain n f s) \<and>
        (hasOnUpdated (upd_drain n f s) n' \<longrightarrow> state_done (drains (upd_drain n f s) n')) \<longrightarrow>
        promises (upd_drain n f s) (UpdatesDoneP n') = Fulfilled Undefined)"
    proof (cases "n' = n")
      case True
      with d keep aw va show ?thesis by (simp add: exhausted_def)
    next
      case False
      with d show ?thesis by (simp add: exhausted_def)
    qed
  qed
  ultimately show ?thesis by (simp add: inv_def)
qed

lemma inv_refreshPromises_delete:
  assumes i: "inv s"
  shows "inv (s\<lparr>refreshPromises := AList.delete q (refreshPromises s)\<rparr>)"
proof -
  let ?s = "s\<lparr>refreshPromises := AList.delete q (refreshPromises s)\<rparr>"
  have "core ?s"
  proof (rule core_frame [OF inv_parts(1) [OF i]])
    show "links_ok ?s"
      using inv_parts(1) [OF i] unfolding core_def links_ok_def
      by (auto dest!: set_delete_subset)
    show "\<And>p r m. present s p r \<Longrightarrow> Inr m \<in> set (owner r) \<Longrightarrow> started ?s m = None"
      using present_started_None [OF inv_parts(1) [OF i]] by simp
  qed auto
  then show ?thesis using i facts_cong [of ?s s] by (simp add: inv_def)
qed

lemma effects_drains_cong:
  assumes "promises s' = promises s" "effects s' = effects s" "drains s' = drains s"
    "refreshes s' = refreshes s" "resolves s' = resolves s" "hasOnUpdated s' = hasOnUpdated s"
  shows "effects_ok s' = effects_ok s" "drains_ok s' = drains_ok s"
  by (simp_all add: effects_ok_def drains_ok_def exhausted_def assms)

lemma inv_started:
  assumes i: "inv s" and k: "key_free s (Inr m)" and no: "started s m = None"
    and m: "m < changes s" and n: "n < refreshes s"
    and h: "\<And>h. awaited s m = Some h \<Longrightarrow> \<exists>v. promises s h = Fulfilled v"
  shows "inv (s\<lparr>started := (started s)(m := Some n)\<rparr>)"
proof -
  let ?s = "s\<lparr>started := (started s)(m := Some n)\<rparr>"
  note c = inv_parts(1) [OF i]
  have "core ?s"
  proof (rule core_frame [OF c])
    show "links_ok ?s"
      using c m n h unfolding core_def links_ok_def by auto
    show "\<And>p r m'. present s p r \<Longrightarrow> Inr m' \<in> set (owner r) \<Longrightarrow> started ?s m' = None"
      using present_started_None [OF c] present_key k by auto
    show "\<And>m' n'. started s m' = Some n' \<Longrightarrow> started ?s m' = Some n'"
      using no by auto
  qed auto
  moreover have "promises_ok ?s"
    by (rule promises_ok_frame [OF inv_parts(2) [OF i]]) (use no in \<open>auto\<close>)
  ultimately show ?thesis using i effects_drains_cong [of ?s s] by (simp add: inv_def)
qed

lemma inv_new_change:
  assumes i: "inv s" and h: "\<And>h. rp = Some h \<Longrightarrow> \<exists>n<refreshes s. h = DeferredP n"
  shows "inv (s\<lparr>changes := Suc (changes s), awaited := (awaited s)(changes s := rp)\<rparr>)"
proof -
  let ?s = "s\<lparr>changes := Suc (changes s), awaited := (awaited s)(changes s := rp)\<rparr>"
  note c = inv_parts(1) [OF i]
  have "core ?s"
  proof (rule core_frame [OF c])
    show "links_ok ?s"
      using c h unfolding core_def links_ok_def
      by (auto simp: less_Suc_eq)
    show "\<And>p r m'. present s p r \<Longrightarrow> Inr m' \<in> set (owner r) \<Longrightarrow> started ?s m' = None"
      using present_started_None [OF c] by simp
  qed auto
  moreover have "promises_ok ?s"
    by (rule promises_ok_frame [OF inv_parts(2) [OF i]]) auto
  ultimately show ?thesis using i effects_drains_cong [of ?s s] by (simp add: inv_def)
qed

lemma inv_new_resolve:
  assumes i: "inv s"
  shows "inv (s\<lparr>resolves := Suc (resolves s)\<rparr>)"
proof -
  let ?s = "s\<lparr>resolves := Suc (resolves s)\<rparr>"
  note c = inv_parts(1) [OF i]
  have "core ?s"
  proof (rule core_frame [OF c])
    show "links_ok ?s"
      using c unfolding core_def links_ok_def by auto
    show "\<And>p r m'. present s p r \<Longrightarrow> Inr m' \<in> set (owner r) \<Longrightarrow> started ?s m' = None"
      using present_started_None [OF c] by simp
  qed auto
  moreover have "promises_ok ?s"
    by (rule promises_ok_frame [OF inv_parts(2) [OF i]]) auto
  moreover have "effects_ok ?s"
    using inv_parts(3) [OF i] unfolding effects_ok_def exhausted_def
    by (auto simp: less_Suc_eq)
  moreover have "drains_ok ?s"
    using inv_parts(4) [OF i] unfolding drains_ok_def exhausted_def by auto
  ultimately show ?thesis by (simp add: inv_def)
qed

section \<open>The continuations of a drain and the jobs\<close>

lemma inv_addEnvs_throw:
  assumes i: "inv s" and q: "quiet s n" and n: "n < refreshes s"
    and why: "(\<exists>j. promises s (NextP n j) = Rejected e) \<or> promises s (ValidateP n) = Rejected e
      \<or> promises s (UpdatesDoneP n) = Rejected e"
  shows "inv (addEnvs_throw n e s)"
  unfolding addEnvs_throw_def
proof (rule inv_settle)
  show "inv (upd_drain n (\<lambda>d. d\<lparr>phase_of := Threw\<rparr>) s)"
    by (rule inv_upd_drain_control [OF i q]) simp_all
qed (use n why in \<open>simp_all\<close>)

lemma key_free_owner_free:
  "key_free s (Inl n) \<Longrightarrow> owner_free s (Reaction (Some (Resume n pt)) r d)"
  by (simp add: owner_free_iff)

lemma inv_resume:
  assumes i: "inv s"
    and e: "expected s src (Reaction (Some (Resume n pt)) (Some (Resume n pt)) None)"
    and st: "promises s src = st" "st \<noteq> Pending"
    and k: "key_free s (Inl n)" and q: "quiet s n"
  shows "inv (resume n pt st s)"
proof -
  from owner_resume [OF e, of n] have n: "n < refreshes s" by simp
  have thr: "\<And>err. st = Rejected err \<Longrightarrow> inv (addEnvs_throw n err s)"
  proof -
    fix err assume r: "st = Rejected err"
    from owner_resume [OF e, of n] st r
    have "(\<exists>j. promises s (NextP n j) = Rejected err) \<or> promises s (ValidateP n) = Rejected err
      \<or> promises s (UpdatesDoneP n) = Rejected err"
      by auto
    then show "inv (addEnvs_throw n err s)" by (rule inv_addEnvs_throw [OF i q n])
  qed
  show ?thesis
  proof (cases pt)
    case AfterNext
    with owner_resume [OF e, of n] have src: "src = NextP n (nexts (drains s n))"
      and ph: "phase_of (drains s n) = Iterating" by auto
    show ?thesis
    proof (cases st)
      case Pending
      with st show ?thesis by simp
    next
      case (Rejected err)
      with AfterNext thr [of err] show ?thesis by simp
    next
      case (Fulfilled v)
      show ?thesis
      proof (cases v)
        case (IterValue env)
        let ?f = "\<lambda>d. d\<lparr>seen := js_push (seen d) env, nexts := Suc (nexts (drains s n))\<rparr>"
        have nv: "CacheValidate n \<notin> set (effects s)"
        proof
          assume "CacheValidate n \<in> set (effects s)"
          with inv_parts(3) [OF i] have "exhausted s n" by (simp add: effects_ok_def)
          with st src Fulfilled IterValue show False by (simp add: exhausted_def)
        qed
        have 1: "inv (upd_drain n ?f s)"
          by (rule inv_upd_drain_control [OF i q]) (use nv ph in \<open>simp_all\<close>)
        have 2: "inv (emit (CacheAddEnv env)
            ((upd_drain n ?f s)\<lparr>cache := addEnv env (cache (upd_drain n ?f s))\<rparr>))"
          by (intro inv_emit inv_cache 1) simp
        have "inv (performThen (NextP n (Suc (nexts (drains s n))))
            (Reaction (Some (Resume n AfterNext)) (Some (Resume n AfterNext)) None)
            (emit (CacheAddEnv env)
              ((upd_drain n ?f s)\<lparr>cache := addEnv env (cache (upd_drain n ?f s))\<rparr>)))"
          by (rule inv_performThen [OF 2]) (use n ph k in \<open>simp_all add: owner_free_iff\<close>)
        with AfterNext Fulfilled IterValue show ?thesis
          by (simp add: Let_def await_def)
      next
        case IterDone
        let ?f = "\<lambda>d. d\<lparr>phase_of := AwaitingUpdates\<rparr>"
        have 1: "inv (upd_drain n ?f s)"
          by (rule inv_upd_drain_control [OF i q])
             (use st src Fulfilled IterDone in \<open>simp_all\<close>)
        have "inv (performThen (UpdatesDoneP n)
            (Reaction (Some (Resume n AfterUpdatesDone)) (Some (Resume n AfterUpdatesDone)) None)
            (upd_drain n ?f s))"
          by (rule inv_performThen [OF 1]) (use n k in \<open>simp_all add: owner_free_iff\<close>)
        with AfterNext Fulfilled IterDone show ?thesis by (simp add: await_def)
      qed (use AfterNext Fulfilled i in \<open>simp_all\<close>)
    qed
  next
    case AfterUpdatesDone
    with owner_resume [OF e, of n] have src: "src = UpdatesDoneP n"
      and ph: "phase_of (drains s n) = AwaitingUpdates" by auto
    have go: "inv (performThen (ValidateP n)
        (Reaction (Some (Resume n AfterValidate)) (Some (Resume n AfterValidate)) None)
        (upd_drain n (\<lambda>d. d\<lparr>phase_of := Validating\<rparr>) (emit (CacheValidate n) s)))"
    proof -
      from inv_parts(4) [OF i] ph have "exhausted s n" by (simp add: drains_ok_def)
      with st src have 1: "inv (emit (CacheValidate n) s)"
        by (intro inv_emit i) simp
      have 2: "inv (upd_drain n (\<lambda>d. d\<lparr>phase_of := Validating\<rparr>) (emit (CacheValidate n) s))"
        by (rule inv_upd_drain_control [OF 1]) (use q in \<open>simp_all\<close>)
      show ?thesis
        by (rule inv_performThen [OF 2]) (use n k in \<open>simp_all add: owner_free_iff\<close>)
    qed
    show ?thesis
    proof (cases st)
      case Pending
      with st show ?thesis by simp
    next
      case (Rejected err)
      with AfterUpdatesDone thr [of err] show ?thesis by simp
    next
      case (Fulfilled v)
      with AfterUpdatesDone go show ?thesis by (simp add: await_def)
    qed
  next
    case AfterValidate
    with owner_resume [OF e, of n] have src: "src = ValidateP n"
      and ph: "phase_of (drains s n) = Validating" by auto
    show ?thesis
    proof (cases st)
      case Pending
      with st show ?thesis by simp
    next
      case (Rejected err)
      with AfterValidate thr [of err] show ?thesis by simp
    next
      case (Fulfilled v)
      from inv_parts(4) [OF i] ph have cv: "CacheValidate n \<in> set (effects s)"
        by (simp add: drains_ok_def)
      let ?s1 = "upd_drain n (\<lambda>d. d\<lparr>phase_of := Returned\<rparr>) s"
      have 1: "inv ?s1"
        by (rule inv_upd_drain_control [OF i q]) simp_all
      have 2: "inv (emit (CacheFlush n) ?s1)"
        by (rule inv_emit [OF 1]) (use cv st src Fulfilled in \<open>simp\<close>)
      have 3: "inv (performThen (FlushP n) (Reaction None (Some Noop) (Some (IgnoredP (FlushP n))))
          (emit (CacheFlush n) ?s1))"
        by (rule inv_performThen [OF 2]) (use n in \<open>simp_all add: owner_free_iff\<close>)
      have "inv (settle (AddEnvsP n) (Fulfilled Undefined)
          (performThen (FlushP n) (Reaction None (Some Noop) (Some (IgnoredP (FlushP n))))
            (emit (CacheFlush n) ?s1)))"
        by (rule inv_settle [OF 3]) (use n in \<open>simp_all\<close>)
      with AfterValidate Fulfilled show ?thesis
        by (simp add: ignoreErrors_def js_then_def)
    qed
  qed
qed

lemma settled_settle [simp]: "promises s q \<noteq> Pending \<Longrightarrow> promises (settle p st s) q = promises s q"
  by (auto simp: settle_promises)

lemma job_AddEnvs:
  assumes i: "inv s" and n: "n < refreshes s" and st: "promises s (AddEnvsP n) = st" "st \<noteq> Pending"
  shows "inv (run_job (ReactionJob (AddEnvsP n)
           (Reaction (Some (OnRefreshDone q n)) None (Some (ThenP n))) st) s)"
proof (cases st)
  case Pending
  with st show ?thesis by simp
next
  case (Rejected err)
  have "inv (settle (ThenP n) (Rejected err) s)"
    by (rule inv_settle [OF i]) (use n st Rejected in \<open>simp_all\<close>)
  with Rejected show ?thesis by (simp add: handler_for_def)
next
  case (Fulfilled v)
  let ?s1 = "settle (DeferredP n) (Fulfilled Undefined) s"
  let ?s2 = "?s1\<lparr>refreshPromises := AList.delete q (refreshPromises ?s1)\<rparr>"
  let ?s3 = "emit (Telemetry (length (getAllEnvs (cache ?s2)))) ?s2"
  let ?s4 = "settle (SuccessP n) (Fulfilled Undefined) ?s3"
  have 1: "inv ?s1" by (rule inv_settle [OF i]) (use n st in \<open>simp_all\<close>)
  have 2: "inv ?s2" by (rule inv_refreshPromises_delete [OF 1])
  have 3: "inv ?s3" by (rule inv_emit [OF 2]) simp
  have 4: "inv ?s4" by (rule inv_settle [OF 3]) (use n st in \<open>simp_all\<close>)
  have "inv (enqueue (ThenableJob (ThenP n) (SuccessP n)) ?s4)"
    by (rule inv_enqueue_thenable [OF 4]) (use n in \<open>simp\<close>)
  with Fulfilled show ?thesis
    by (simp add: handler_for_def onRefreshDone_def Let_def)
qed

lemma job_Then:
  assumes i: "inv s" and n: "n < refreshes s" and st: "promises s (ThenP n) = st" "st \<noteq> Pending"
  shows "inv (run_job (ReactionJob (ThenP n)
           (Reaction None (Some (OnRefreshFailed n)) (Some (CatchP n))) st) s)"
proof (cases st)
  case Pending
  with st show ?thesis by simp
next
  case (Fulfilled v)
  have "inv (settle (CatchP n) (Fulfilled v) s)"
    by (rule inv_settle [OF i]) (use n st in \<open>simp_all\<close>)
  with Fulfilled show ?thesis by (simp add: handler_for_def)
next
  case (Rejected err)
  from promises_okD [OF inv_parts(2) [OF i], of "ThenP n"] st Rejected
  have a: "promises s (AddEnvsP n) = Rejected err" by simp
  have 1: "inv (settle (DeferredP n) (Rejected err) s)"
    by (rule inv_settle [OF i]) (use n a in \<open>simp_all\<close>)
  have "inv (settle (CatchP n) (Fulfilled Undefined) (settle (DeferredP n) (Rejected err) s))"
    by (rule inv_settle [OF 1]) (use n st in \<open>simp_all\<close>)
  with Rejected show ?thesis by (simp add: handler_for_def onRefreshFailed_def)
qed

text \<open>A promise that follows another one: the job of the adopted promise settles it.\<close>

lemma job_adopt:
  assumes i: "inv s" and st: "st \<noteq> Pending" and c: "created s d" and j: "just s d st"
  shows "inv (run_job (ReactionJob t
           (Reaction (Some (ResolveWith d)) (Some (RejectWith d)) None) st) s)"
proof -
  have "inv (settle d st s)" by (rule inv_settle [OF i st c j])
  with st show ?thesis by (cases st) (simp_all add: handler_for_def)
qed

lemma job_ignore:
  assumes i: "inv s" and st: "st \<noteq> Pending" and c: "created s p"
  shows "inv (run_job (ReactionJob p (Reaction None (Some Noop) (Some (IgnoredP p))) st) s)"
proof (cases st)
  case Pending
  with st show ?thesis by simp
next
  case (Fulfilled v)
  have "inv (settle (IgnoredP p) (Fulfilled v) s)"
    by (rule inv_settle [OF i]) (use c in \<open>simp_all\<close>)
  with Fulfilled show ?thesis by (simp add: handler_for_def)
next
  case (Rejected err)
  have "inv (settle (IgnoredP p) (Fulfilled Undefined) s)"
    by (rule inv_settle [OF i]) (use c in \<open>simp_all\<close>)
  with Rejected show ?thesis by (simp add: handler_for_def)
qed

lemma job_Notify:
  assumes i: "inv s" and m: "m < changes s" and st: "promises s (NewRefreshP m) = st" "st \<noteq> Pending"
  shows "inv (run_job (ReactionJob (NewRefreshP m)
           (Reaction (Some (Notify m ev)) None (Some (NotifyP m))) st) s)"
proof (cases st)
  case Pending
  with st show ?thesis by simp
next
  case (Rejected err)
  have "inv (settle (NotifyP m) (Rejected err) s)"
    by (rule inv_settle [OF i]) (use m in \<open>simp_all\<close>)
  with Rejected show ?thesis by (simp add: handler_for_def)
next
  case (Fulfilled v)
  have 1: "inv (emit (Fire (Some m) ev) s)"
    by (rule inv_emit [OF i]) (use st Fulfilled in \<open>simp\<close>)
  have "inv (settle (NotifyP m) (Fulfilled Undefined) (emit (Fire (Some m) ev) s))"
    by (rule inv_settle [OF 1]) (use m in \<open>simp_all\<close>)
  with Fulfilled show ?thesis by (simp add: handler_for_def)
qed

lemma promises_startRefresh:
  "promises s p \<noteq> Pending \<Longrightarrow> promises (snd (startRefresh q s)) p = promises s p"
  by (simp add: startRefresh_unfold subscribed_def)

lemma startRefresh_more_fields [simp]:
  "jobs (s\<lparr>started := x\<rparr>) = jobs s"
  by simp

lemma inv_startChained:
  assumes i: "inv s" and k: "key_free s (Inr m)" and no: "started s m = None"
    and m: "m < changes s"
    and h: "\<And>h. awaited s m = Some h \<Longrightarrow> \<exists>v. promises s h = Fulfilled v"
  shows "inv (snd (startChained m q s))"
proof -
  let ?s1 = "snd (startRefresh q s)"
  have 1: "inv ?s1" by (rule inv_startRefresh [OF i])
  have "inv (?s1\<lparr>started := (started ?s1)(m := Some (refreshes s))\<rparr>)"
  proof (rule inv_started [OF 1])
    show "key_free ?s1 (Inr m)" by (rule key_free_startRefresh [OF k]) simp
    show "\<And>h. awaited ?s1 m = Some h \<Longrightarrow> \<exists>v. promises ?s1 h = Fulfilled v"
      using h by (auto simp: startRefresh_fields promises_startRefresh)
  qed (use no m in \<open>simp_all add: startRefresh_fields\<close>)
  then show ?thesis by (simp add: startChained_def split_beta)
qed

lemma startChained_fields:
  "fst (startChained m q s) = StartRefreshP (refreshes s)"
  "refreshes (snd (startChained m q s)) = Suc (refreshes s)"
  "changes (snd (startChained m q s)) = changes s"
  "started (snd (startChained m q s)) = (started s)(m := Some (refreshes s))"
  "awaited (snd (startChained m q s)) = awaited s"
  by (simp_all add: startChained_def split_beta startRefresh_fields)

lemma job_StartChained:
  assumes i: "inv s" and n: "n < refreshes s" and m: "m < changes s"
    and st: "promises s (DeferredP n) = st" "st \<noteq> Pending"
    and aw: "awaited s m = Some (DeferredP n)" and no: "started s m = None"
    and k: "key_free s (Inr m)"
  shows "inv (run_job (ReactionJob (DeferredP n)
           (Reaction (Some (StartChained m q)) None (Some (ChainedP m))) st) s)"
proof (cases st)
  case Pending
  with st show ?thesis by simp
next
  case (Rejected err)
  have "inv (settle (ChainedP m) (Rejected err) s)"
    by (rule inv_settle [OF i]) (use m in \<open>simp_all\<close>)
  with Rejected show ?thesis by (simp add: handler_for_def)
next
  case (Fulfilled v)
  have 1: "inv (snd (startChained m q s))"
    by (rule inv_startChained [OF i k no m]) (use aw st Fulfilled in \<open>auto\<close>)
  have "inv (enqueue (ThenableJob (ChainedP m) (StartRefreshP (refreshes s)))
      (snd (startChained m q s)))"
    by (rule inv_enqueue_thenable [OF 1]) (use m aw in \<open>auto simp: startChained_fields\<close>)
  with Fulfilled show ?thesis
    by (simp add: handler_for_def split_beta startChained_fields)
qed

lemma run_resume_job:
  "st \<noteq> Pending \<Longrightarrow>
   run_job (ReactionJob src (Reaction (Some (Resume n pt)) (Some (Resume n pt)) None) st) s =
     resume n pt st s"
  by (cases st) (simp_all add: handler_for_def)

lemma inv_run_job:
  assumes i: "inv s" and js: "jobs s = j # js"
  shows "inv (run_job j (s\<lparr>jobs := js\<rparr>))"
proof -
  let ?s = "s\<lparr>jobs := js\<rparr>"
  note c = inv_parts(1) [OF i]
  have i0: "inv ?s" by (rule inv_dequeue [OF i js])
  note p0 = inv_parts(2) [OF i0]
  from head_job_ok [OF c js] have ok: "job_ok ?s j"
    by (simp add: job_ok_cong [of ?s s])
  show ?thesis
  proof (cases j)
    case (ThenableJob d t)
    with ok have "expected ?s t (Reaction (Some (ResolveWith d)) (Some (RejectWith d)) None)"
      by simp
    from inv_performThen [OF i0 this] ThenableJob show ?thesis
      by (simp add: owner_free_iff)
  next
    case (ReactionJob src r st)
    with ok have st: "promises ?s src = st" "st \<noteq> Pending" and e: "expected ?s src r"
      by simp_all
    from dequeue_free [OF c js [unfolded ReactionJob]]
    have free: "\<And>K. K \<in> set (owner r) \<Longrightarrow> key_free ?s K"
      by (simp add: owner_free_iff)
    have qu: "\<And>n. Inl n \<in> set (owner r) \<Longrightarrow> quiet ?s n"
      using resume_quiet [OF c js [unfolded ReactionJob]] by (auto simp: quiet_def)
    show ?thesis
    proof (cases src)
      case (AddEnvsP n)
      with e st ReactionJob job_AddEnvs [OF i0] show ?thesis by (auto simp del: run_job.simps)
    next
      case (ThenP n)
      with e st ReactionJob job_Then [OF i0] show ?thesis by (auto simp del: run_job.simps)
    next
      case (CatchP n)
      with e st ReactionJob promises_okD [OF p0, of "CatchP n"] show ?thesis by (auto simp del: run_job.simps intro!: job_adopt [OF i0])
    next
      case (SuccessP n)
      with e st ReactionJob promises_okD [OF p0, of "SuccessP n"] show ?thesis
        by (auto simp del: run_job.simps intro!: job_adopt [OF i0])
    next
      case (StartRefreshP n)
      with e st ReactionJob show ?thesis
        by (auto simp del: run_job.simps intro!: job_adopt [OF i0] job_ignore [OF i0])
    next
      case (DeferredP n)
      with e obtain m q where r: "r = Reaction (Some (StartChained m q)) None (Some (ChainedP m))"
        and f: "n < refreshes ?s" "m < changes ?s" "awaited ?s m = Some (DeferredP n)"
          "started ?s m = None"
        by auto
      from free [of "Inr m"] r have "key_free ?s (Inr m)" by simp
      from job_StartChained [OF i0 f(1,2) _ _ f(3,4) this] st DeferredP r ReactionJob
      show ?thesis by (simp del: run_job.simps)
    next
      case (ChainedP m)
      with e st ReactionJob promises_okD [OF p0, of "ChainedP m"] show ?thesis
        by (auto simp del: run_job.simps intro!: job_adopt [OF i0])
    next
      case (NewRefreshP m)
      with e st ReactionJob job_Notify [OF i0] show ?thesis by (auto simp del: run_job.simps)
    next
      case (NextP n k)
      with e have r: "r = Reaction (Some (Resume n AfterNext)) (Some (Resume n AfterNext)) None"
        by simp
      from inv_resume [OF i0 e [unfolded r] st free qu] r ReactionJob st show ?thesis
        by (simp add: run_resume_job del: run_job.simps)
    next
      case (UpdatesDoneP n)
      with e have r: "r = Reaction (Some (Resume n AfterUpdatesDone))
          (Some (Resume n AfterUpdatesDone)) None"
        by simp
      from inv_resume [OF i0 e [unfolded r] st free qu] r ReactionJob st show ?thesis
        by (simp add: run_resume_job del: run_job.simps)
    next
      case (ValidateP n)
      with e have r: "r = Reaction (Some (Resume n AfterValidate))
          (Some (Resume n AfterValidate)) None"
        by simp
      from inv_resume [OF i0 e [unfolded r] st free qu] r ReactionJob st show ?thesis
        by (simp add: run_resume_job del: run_job.simps)
    next
      case (FlushP n)
      with e st ReactionJob show ?thesis by (auto simp del: run_job.simps intro!: job_ignore [OF i0])
    next
      case (LocatorResolveP k)
      with e st ReactionJob show ?thesis by (auto simp del: run_job.simps intro!: job_adopt [OF i0])
    qed (use e in \<open>simp_all\<close>)
  qed
qed

section \<open>Every action keeps the invariant\<close>

lemma delegated_iff: "delegated s k = (\<exists>path. LocatorResolveEnv k path \<in> set (effects s))"
proof -
  have "\<And>e. (case e of LocatorResolveEnv k' path \<Rightarrow> k' = k | _ \<Rightarrow> False)
      = (\<exists>path. e = LocatorResolveEnv k path)"
  proof -
    fix e show "(case e of LocatorResolveEnv k' path \<Rightarrow> k' = k | _ \<Rightarrow> False)
      = (\<exists>path. e = LocatorResolveEnv k path)" by (cases e) auto
  qed
  then show ?thesis by (auto simp: delegated_def list_ex_iff)
qed

lemma inv_triggerRefresh: "inv s \<Longrightarrow> inv (snd (triggerRefresh q s))"
  by (auto simp: triggerRefresh_def inv_startRefresh split: option.splits)

lemma inv_getEnvs:
  assumes i: "inv s"
  shows "inv (snd (getEnvs f q s))"
proof (cases "length (getAllEnvs (cache s)) = 0 \<and> length (refreshPromises s) = 0")
  case False
  with i show ?thesis by (auto simp: getEnvs_def Let_def)
next
  case True
  let ?s1 = "emit TraceError s"
  have t: "triggerRefresh None ?s1 = startRefresh None ?s1"
    using True by (simp add: triggerRefresh_def getRefreshPromiseForQuery_def)
  have 1: "inv ?s1" by (rule inv_emit [OF i]) simp
  have 2: "inv (snd (startRefresh None ?s1))" by (rule inv_startRefresh [OF 1])
  have "inv (performThen (StartRefreshP (refreshes s))
      (Reaction None (Some Noop) (Some (IgnoredP (StartRefreshP (refreshes s)))))
      (snd (startRefresh None ?s1)))"
    by (rule inv_performThen [OF 2]) (simp_all add: startRefresh_fields owner_free_iff)
  with True t show ?thesis
    by (simp add: getEnvs_def Let_def split_beta ignoreErrors_def js_then_def startRefresh_fields)
qed

lemma inv_resolveEnv:
  assumes i: "inv s"
  shows "inv (snd (resolveEnv path s))"
proof -
  let ?k = "resolves s"
  let ?s1 = "s\<lparr>resolves := Suc ?k\<rparr>"
  have 1: "inv ?s1" by (rule inv_new_resolve [OF i])
  have a: "\<And>env. inv (settle (ResolveEnvP ?k) (Fulfilled (EnvValue env)) ?s1)"
    by (rule inv_settle [OF 1]) simp_all
  have 2: "inv (emit (LocatorResolveEnv ?k path) ?s1)"
    by (rule inv_emit [OF 1]) simp
  have b: "inv (enqueue (ThenableJob (ResolveEnvP ?k) (LocatorResolveP ?k))
      (emit (LocatorResolveEnv ?k path) ?s1))"
    by (rule inv_enqueue_thenable [OF 2]) simp
  from a b show ?thesis
    by (simp add: resolveEnv_def Let_def split: option.splits)
qed

lemma map_of_refreshPromises:
  assumes c: "core s" and m: "map_of (refreshPromises s) q = Some h"
  shows "\<exists>n<refreshes s. h = DeferredP n"
proof -
  from m have "(q, h) \<in> set (refreshPromises s)" by (rule map_of_SomeD)
  with c show ?thesis by (auto simp: core_def links_ok_def)
qed

lemma getRefreshPromiseForQuery_Deferred:
  "core s \<Longrightarrow> getRefreshPromiseForQuery q s = Some h \<Longrightarrow> \<exists>n<refreshes s. h = DeferredP n"
  by (auto simp: getRefreshPromiseForQuery_def split: option.splits
      dest: map_of_refreshPromises)

lemma inv_onLocatorChanged:
  assumes i: "inv s"
  shows "inv (onLocatorChanged event s)"
proof -
  let ?m = "changes s"
  let ?rp = "getRefreshPromiseForQuery None s"
  let ?s1 = "s\<lparr>changes := Suc ?m, awaited := (awaited s)(?m := ?rp)\<rparr>"
  let ?ev = "ChangeEvent (etype event) (searchLocation event)"
  note c = inv_parts(1) [OF i]
  have 1: "inv ?s1"
    by (rule inv_new_change [OF i])
       (use getRefreshPromiseForQuery_Deferred [OF c] in \<open>auto\<close>)
  have no: "started s ?m = None"
    using c by (cases "started s ?m") (auto simp: core_def links_ok_def)
  have k: "key_free ?s1 (Inr ?m)"
    using fresh_change_key [OF c, of ?m] key_free_cong [of ?s1 s] by simp
  have fin: "\<And>t nx. inv t \<Longrightarrow>
      expected t nx (Reaction (Some (ResolveWith (NewRefreshP ?m)))
        (Some (RejectWith (NewRefreshP ?m))) None) \<Longrightarrow> ?m < changes t \<Longrightarrow>
      inv (performThen (NewRefreshP ?m) (Reaction (Some (Notify ?m ?ev)) None (Some (NotifyP ?m)))
        (enqueue (ThenableJob (NewRefreshP ?m) nx) t))"
    by (intro inv_performThen inv_enqueue_thenable) (simp_all add: owner_free_iff)
  show ?thesis
  proof (cases ?rp)
    case None
    let ?s2 = "snd (startChained ?m None ?s1)"
    have 2: "inv ?s2"
      by (rule inv_startChained [OF 1 k]) (use no None in \<open>simp_all\<close>)
    have "inv (performThen (NewRefreshP ?m) (Reaction (Some (Notify ?m ?ev)) None (Some (NotifyP ?m)))
        (enqueue (ThenableJob (NewRefreshP ?m) (StartRefreshP (refreshes s))) ?s2))"
      by (rule fin [OF 2]) (use None in \<open>auto simp: startChained_fields\<close>)
    with None show ?thesis
      by (simp add: onLocatorChanged_def triggerNewRefresh_def Let_def split_beta js_then_def
          startChained_fields)
  next
    case (Some h)
    from getRefreshPromiseForQuery_Deferred [OF c Some] obtain n
      where n: "n < refreshes s" "h = DeferredP n" by auto
    let ?s2 = "performThen h (Reaction (Some (StartChained ?m None)) None (Some (ChainedP ?m))) ?s1"
    have 2: "inv ?s2"
      by (rule inv_performThen [OF 1]) (use n Some no k in \<open>simp_all add: owner_free_iff\<close>)
    have "inv (performThen (NewRefreshP ?m) (Reaction (Some (Notify ?m ?ev)) None (Some (NotifyP ?m)))
        (enqueue (ThenableJob (NewRefreshP ?m) (ChainedP ?m)) ?s2))"
      by (rule fin [OF 2]) (use Some in \<open>auto\<close>)
    with Some show ?thesis
      by (simp add: onLocatorChanged_def triggerNewRefresh_def Let_def js_then_def)
  qed
qed

lemma delegated_resolves: "inv s \<Longrightarrow> delegated s k \<Longrightarrow> k < resolves s"
  by (auto simp: delegated_iff inv_def effects_ok_def)

lemma inv_step:
  assumes i: "inv s"
  shows "inv (step a s)"
proof (cases a)
  case (CallTriggerRefresh q)
  with i show ?thesis by (simp add: inv_triggerRefresh)
next
  case (CallGetEnvs f q)
  with i show ?thesis by (simp add: inv_getEnvs)
next
  case (CallResolveEnv path)
  with i show ?thesis by (simp add: inv_resolveEnv)
next
  case (LocatorChanged ev)
  with i show ?thesis by (simp add: inv_onLocatorChanged)
next
  case (CacheChanged ev)
  with i show ?thesis by (simp add: onCacheChanged_def inv_emit)
next
  case (IterYields n env)
  with i show ?thesis by (auto simp: iterating_def next_of_def intro!: inv_settle)
next
  case (IterEnds n)
  with i show ?thesis by (auto simp: iterating_def next_of_def intro!: inv_settle)
next
  case (IterThrows n e)
  with i show ?thesis by (auto simp: iterating_def next_of_def intro!: inv_settle)
next
  case (IterUpdated n ev)
  with i show ?thesis by (simp add: inv_onUpdated_listener)
next
  case (ValidateResolves n)
  with i show ?thesis by (auto intro!: inv_settle)
next
  case (ValidateRejects n e)
  with i show ?thesis by (auto intro!: inv_settle)
next
  case (FlushResolves n)
  with i show ?thesis by (auto intro!: inv_settle)
next
  case (FlushRejects n e)
  with i show ?thesis by (auto intro!: inv_settle)
next
  case (LocatorResolves k env)
  with i delegated_resolves [OF i, of k] show ?thesis by (auto intro!: inv_settle)
next
  case (LocatorResolveRejects k e)
  with i delegated_resolves [OF i, of k] show ?thesis by (auto intro!: inv_settle)
next
  case Microtask
  with i show ?thesis by (auto simp: inv_run_job split: list.splits)
qed

lemma inv_init: "inv (init upd envs)"
  by (simp add: inv_def core_def jobs_ok_def reactions_ok_def owners_ok_def links_ok_def
      job_owners_def reaction_owners_def promises_ok_def effects_ok_def drains_ok_def init_def)


lemma inv_exec: "inv s \<Longrightarrow> inv (exec as s)"
  by (induction as arbitrary: s) (simp_all add: inv_step)

lemma inv_reachable: "inv (exec as (init upd envs))"
  by (rule inv_exec [OF inv_init])

section \<open>No drain is left behind\<close>

lemma ext_refl [simp]: "ext s s"
  by (auto simp: ext_def)

lemma ext_trans:
  assumes a: "ext s s1" and b: "ext s1 s2"
  shows "ext s s2"
proof -
  from a have a1: "refreshes s \<le> refreshes s1"
    and a2: "\<And>n. n < refreshes s \<Longrightarrow>
        phase_of (drains s1 n) = phase_of (drains s n) \<and> (waits s n \<longrightarrow> waits s1 n)"
    and a3: "\<And>n. refreshes s \<le> n \<Longrightarrow> n < refreshes s1 \<Longrightarrow> waits s1 n"
    by (simp_all add: ext_def)
  from b have b1: "refreshes s1 \<le> refreshes s2"
    and b2: "\<And>n. n < refreshes s1 \<Longrightarrow>
        phase_of (drains s2 n) = phase_of (drains s1 n) \<and> (waits s1 n \<longrightarrow> waits s2 n)"
    and b3: "\<And>n. refreshes s1 \<le> n \<Longrightarrow> n < refreshes s2 \<Longrightarrow> waits s2 n"
    by (simp_all add: ext_def)
  have 1: "refreshes s \<le> refreshes s2" using a1 b1 by simp
  have 2: "phase_of (drains s2 n) = phase_of (drains s n) \<and> (waits s n \<longrightarrow> waits s2 n)"
    if "n < refreshes s" for n
  proof -
    from that a1 have "n < refreshes s1" by simp
    from b2 [OF this] a2 [OF that] show ?thesis by simp
  qed
  have 3: "waits s2 n" if "refreshes s \<le> n" "n < refreshes s2" for n
  proof (cases "n < refreshes s1")
    case True
    from a3 [OF that(1) True] b2 [OF True] show ?thesis by simp
  next
    case False
    then have "refreshes s1 \<le> n" by simp
    from b3 [OF this that(2)] show ?thesis .
  qed
  from 1 2 3 show ?thesis by (simp add: ext_def)
qed


lemma ext_same:
  assumes e: "ext s s'" and r: "refreshes s'' = refreshes s'"
    and ph: "\<And>n. phase_of (drains s'' n) = phase_of (drains s' n)"
    and w: "\<And>n. waits s' n \<Longrightarrow> waits s'' n"
  shows "ext s s''"
  using e r ph w unfolding ext_def by auto

lemma waits_cong:
  "jobs s' = jobs s \<Longrightarrow> reactions s' = reactions s \<Longrightarrow> waits s' n = waits s n"
  using key_free_cong [of s' s "Inl n"] by (simp add: waits_def)

lemma key_free_unsettle:
  assumes k: "key_free (settle p st s) K"
  shows "key_free s K"
proof (cases "promises s p = Pending")
  case False
  with k show ?thesis by (simp add: settle_def)
next
  case True
  from k True have j: "K \<notin> set (job_owners s)" and m: "K \<notin> set (reaction_owners s p)"
    by (auto simp: key_free_def job_owners_def reaction_owners_def settle_jobs)
  have "K \<notin> set (reaction_owners s q)" for q
  proof (cases "q = p")
    case False
    from k have "K \<notin> set (reaction_owners (settle p st s) q)"
      by (simp add: key_free_def)
    with False True show ?thesis
      by (simp add: reaction_owners_def settle_reactions)
  qed (use m in simp)
  with j show ?thesis by (simp add: key_free_def)
qed

lemma waits_settle: "waits s n \<Longrightarrow> waits (settle p st s) n"
  unfolding waits_def using key_free_unsettle by blast

lemma waits_performThen: "waits s n \<Longrightarrow> waits (performThen p r s) n"
  unfolding waits_def key_free_def job_owners_def reaction_owners_def
  by (auto simp: performThen_jobs performThen_reactions split: if_splits)

lemma waits_enqueue: "waits s n \<Longrightarrow> waits (enqueue j s) n"
  unfolding waits_def key_free_def job_owners_def reaction_owners_def
  by (auto simp: enqueue_def)

lemma waits_registered:
  "Inl n \<in> set (owner r) \<Longrightarrow> waits (performThen p r s) n"
  unfolding waits_def key_free_def job_owners_def reaction_owners_def
  by (auto simp: performThen_jobs performThen_reactions)

lemma ext_settle: "ext s s' \<Longrightarrow> ext s (settle p st s')"
  by (erule ext_same) (simp_all add: waits_settle)

lemma ext_performThen: "ext s s' \<Longrightarrow> ext s (performThen p r s')"
  by (erule ext_same) (simp_all add: waits_performThen)

lemma ext_js_then: "ext s s' \<Longrightarrow> ext s (js_then p f r d s')"
  by (simp add: js_then_def ext_performThen)

lemma ext_ignoreErrors: "ext s s' \<Longrightarrow> ext s (ignoreErrors p s')"
  by (simp add: ignoreErrors_def ext_js_then)

lemma ext_enqueue: "ext s s' \<Longrightarrow> ext s (enqueue j s')"
  by (erule ext_same) (simp_all add: waits_enqueue)

lemma ext_resolve_with: "ext s s' \<Longrightarrow> ext s (resolve_with p c s')"
  by (cases c) (simp_all add: ext_settle ext_enqueue)

lemma ext_emit: "ext s s' \<Longrightarrow> ext s (emit e s')"
  by (erule ext_same) (simp_all add: waits_def)


lemma ext_fields:
  "ext s s' \<Longrightarrow> ext s (s'\<lparr>cache := c\<rparr>)"
  "ext s s' \<Longrightarrow> ext s (s'\<lparr>refreshPromises := rp\<rparr>)"
  "ext s s' \<Longrightarrow> ext s (s'\<lparr>started := sa\<rparr>)"
  "ext s s' \<Longrightarrow> ext s (s'\<lparr>resolves := k\<rparr>)"
  "ext s s' \<Longrightarrow> ext s (s'\<lparr>changes := m, awaited := aw\<rparr>)"
proof -
  have w: "jobs t = jobs s' \<Longrightarrow> reactions t = reactions s' \<Longrightarrow> refreshes t = refreshes s' \<Longrightarrow>
      drains t = drains s' \<Longrightarrow> ext s s' \<Longrightarrow> ext s t" for t
    using waits_cong [of t s'] by (auto elim: ext_same)
  show "ext s s' \<Longrightarrow> ext s (s'\<lparr>cache := c\<rparr>)"
    "ext s s' \<Longrightarrow> ext s (s'\<lparr>refreshPromises := rp\<rparr>)"
    "ext s s' \<Longrightarrow> ext s (s'\<lparr>started := sa\<rparr>)"
    "ext s s' \<Longrightarrow> ext s (s'\<lparr>resolves := k\<rparr>)"
    "ext s s' \<Longrightarrow> ext s (s'\<lparr>changes := m, awaited := aw\<rparr>)"
    by (rule w; simp)+
qed

lemma waits_subscribed: "waits s n \<Longrightarrow> waits (subscribed q s) n"
  using waits_cong [of "allocated q s" s n] by (simp add: subscribed_def waits_settle)

lemma waits_startRefresh: "waits s n \<Longrightarrow> waits (snd (startRefresh q s)) n"
  unfolding startRefresh_unfold
  by (intro waits_enqueue waits_performThen waits_subscribed)

lemma waits_new_drain: "waits (snd (startRefresh q s)) (refreshes s)"
  unfolding startRefresh_unfold
  by (intro waits_enqueue waits_performThen waits_registered) simp

lemma drains_startRefresh:
  "n \<noteq> refreshes s \<Longrightarrow> drains (snd (startRefresh q s)) n = drains s n"
  unfolding startRefresh_unfold by simp

lemma ext_startRefresh:
  assumes e: "ext s s'"
  shows "ext s (snd (startRefresh q s'))"
proof (rule ext_trans [OF e])
  have "waits (snd (startRefresh q s')) n" if "refreshes s' \<le> n" "n < Suc (refreshes s')" for n
  proof -
    from that have "n = refreshes s'" by simp
    then show ?thesis by (simp add: waits_new_drain)
  qed
  then show "ext s' (snd (startRefresh q s'))"
    unfolding ext_def
    by (simp add: startRefresh_fields drains_startRefresh waits_startRefresh)
qed

lemma ext_startChained: "ext s s' \<Longrightarrow> ext s (snd (startChained m q s'))"
  by (simp add: startChained_def split_beta ext_fields ext_startRefresh)

lemmas ext_intros = ext_settle ext_performThen ext_js_then ext_ignoreErrors ext_enqueue
  ext_resolve_with ext_emit ext_fields ext_startRefresh ext_startChained












lemma waits_simps [simp]:
  "waits (emit e s) n = waits s n"
  "waits (upd_drain m f s) n = waits s n"
  "waits (s\<lparr>cache := c\<rparr>) n = waits s n"
  by (simp_all add: waits_def)














section \<open>The order of events in a drain\<close>

lemma reachable_parts:
  "core (exec as (init upd envs))" "promises_ok (exec as (init upd envs))"
  "effects_ok (exec as (init upd envs))" "drains_ok (exec as (init upd envs))"
  using inv_reachable [of as upd envs] by (simp_all add: inv_def)


section \<open>Locator changes\<close>

lemma adopted_drain_settled:
  assumes p: "promises_ok s" and a: "promises s (StartRefreshP n) \<noteq> Pending"
  shows "promises s (AddEnvsP n) \<noteq> Pending"
proof -
  from promises_okD [OF p a] have "promises s (CatchP n) \<noteq> Pending" by simp
  from promises_okD [OF p this] have "promises s (ThenP n) \<noteq> Pending" by simp
  from promises_okD [OF p this] show ?thesis by simp
qed

lemma lookup_absent_query:
  "getRefreshPromiseForQuery None s = map_of (refreshPromises s) None"
  by (simp add: getRefreshPromiseForQuery_def split: option.splits)

lemma onLocatorChanged_effects:
  "effects (onLocatorChanged ev s) =
     (if map_of (refreshPromises s) None = None
      then effects s @ [RefreshStartFired, IterEnvs (refreshes s) None] else effects s)"
  "awaited (onLocatorChanged ev s) (changes s) = map_of (refreshPromises s) None"
  "started (onLocatorChanged ev s) (changes s) =
     (if map_of (refreshPromises s) None = None then Some (refreshes s) else started s (changes s))"
  "changes (onLocatorChanged ev s) = Suc (changes s)"
  by (simp_all add: onLocatorChanged_def triggerNewRefresh_def Let_def split_beta js_then_def
      getRefreshPromiseForQuery_def startChained_fields startChained_def startRefresh_fields
      split: option.splits)

text \<open>
  What a locator change waits for, in every state the service can reach. The subscription
  calls \<^verbatim>\<open>triggerNewRefresh()\<close> without a query, so the handle looked up is the one tracked
  for the absent query. For the \<open>m\<close>-th locator change: if the change found a handle and its
  drain has started, that handle is fulfilled; a drain it started has called \<^verbatim>\<open>iterEnvs\<close>;
  and if its downstream event has been fired, the drain it started has ended. A change
  arriving now starts its drain in the same call when no handle is found, and starts nothing
  in that call when one is found.
\<close>

lemma locator_change_waits_for_tracked_handle:
  "(\<forall>h n. awaited (exec as (init upd envs)) m = Some h \<and> started (exec as (init upd envs)) m = Some n
        \<longrightarrow> (\<exists>v. promises (exec as (init upd envs)) h = Fulfilled v))
   \<and> (\<forall>n. started (exec as (init upd envs)) m = Some n \<longrightarrow>
          (\<exists>q. IterEnvs n q \<in> set (effects (exec as (init upd envs)))))
   \<and> (\<forall>ev. Fire (Some m) ev \<in> set (effects (exec as (init upd envs))) \<longrightarrow>
          (\<exists>n. started (exec as (init upd envs)) m = Some n
             \<and> promises (exec as (init upd envs)) (AddEnvsP n) \<noteq> Pending))
   \<and> (if getRefreshPromiseForQuery None (exec as (init upd envs)) = None
       then effects (step (LocatorChanged event) (exec as (init upd envs))) =
              effects (exec as (init upd envs)) @
                [RefreshStartFired, IterEnvs (refreshes (exec as (init upd envs))) None]
            \<and> awaited (step (LocatorChanged event) (exec as (init upd envs)))
                (changes (exec as (init upd envs))) = None
            \<and> started (step (LocatorChanged event) (exec as (init upd envs)))
                (changes (exec as (init upd envs))) = Some (refreshes (exec as (init upd envs)))
       else effects (step (LocatorChanged event) (exec as (init upd envs))) =
              effects (exec as (init upd envs))
            \<and> awaited (step (LocatorChanged event) (exec as (init upd envs)))
                (changes (exec as (init upd envs))) =
                  getRefreshPromiseForQuery None (exec as (init upd envs))
            \<and> started (step (LocatorChanged event) (exec as (init upd envs)))
                (changes (exec as (init upd envs))) = None)"
proof -
  let ?s = "exec as (init upd envs)"
  note p = reachable_parts [of as upd envs]
  from p(1) have l: "links_ok ?s" by (simp add: core_def)
  have a: "\<forall>h n. awaited ?s m = Some h \<and> started ?s m = Some n \<longrightarrow>
      (\<exists>v. promises ?s h = Fulfilled v)"
    using l unfolding links_ok_def by blast
  have b: "\<forall>n. started ?s m = Some n \<longrightarrow> (\<exists>q. IterEnvs n q \<in> set (effects ?s))"
  proof (intro allI impI)
    fix n assume "started ?s m = Some n"
    with l have "n < refreshes ?s" unfolding links_ok_def by blast
    with p(3) show "\<exists>q. IterEnvs n q \<in> set (effects ?s)" by (simp add: effects_ok_def)
  qed
  have c: "\<forall>ev. Fire (Some m) ev \<in> set (effects ?s) \<longrightarrow>
      (\<exists>n. started ?s m = Some n \<and> promises ?s (AddEnvsP n) \<noteq> Pending)"
  proof (intro allI impI)
    fix ev assume "Fire (Some m) ev \<in> set (effects ?s)"
    with p(3) obtain v where v: "promises ?s (NewRefreshP m) = Fulfilled v"
      unfolding effects_ok_def by blast
    with promises_okD [OF p(2), of "NewRefreshP m"] obtain n
      where n: "started ?s m = Some n" "promises ?s (StartRefreshP n) \<noteq> Pending" by auto
    from adopted_drain_settled [OF p(2) n(2)] n(1)
    show "\<exists>n. started ?s m = Some n \<and> promises ?s (AddEnvsP n) \<noteq> Pending" by simp
  qed
  have no: "started ?s (changes ?s) = None"
    using l by (cases "started ?s (changes ?s)") (auto simp: links_ok_def)
  show ?thesis
    using a b c no by (simp add: onLocatorChanged_effects lookup_absent_query)
qed

text \<open>
  The lookup is for the absent query only: a refresh tracked for a query alone is not waited
  for, and the drain of a locator change starts beside it.
\<close>

lemma locator_change_beside_query_refresh:
  "refreshPromises query_in_flight = [(Some (Query 1), DeferredP 0)]
   \<and> promises query_in_flight (DeferredP 0) = Pending
   \<and> effects query_in_flight = [RefreshStartFired, IterEnvs 0 (Some (Query 1))]
   \<and> effects (step (LocatorChanged (ChangeEvent ''created'' None)) query_in_flight) =
       [RefreshStartFired, IterEnvs 0 (Some (Query 1)), RefreshStartFired, IterEnvs 1 None]
   \<and> promises (step (LocatorChanged (ChangeEvent ''created'' None)) query_in_flight) (DeferredP 0)
       = Pending"
  by code_simp

text \<open>
  C5 says that the drain of a locator change that fires while a refresh is in flight does not
  start until that refresh has settled, and that with no refresh in flight it starts at once.
  The code waits for the one handle the tracking map holds for the absent query (lines
  78-81). Two changes during refresh 0 both wait for its handle and start the drains 1 and 2
  side by side, the handle of drain 2 taking the place of that of drain 1 in the map (line
  89). A third change, fired while both are in flight, finds the handle of drain 2 alone: its
  drain 3 starts when drain 2 is done, while drain 1 is still iterating. And after a universal
  refresh that failed, whose rejected handle stays in the map (line 101), no refresh is in
  flight, yet a locator change starts no drain, in the call or later, and its downstream
  event is never fired.
\<close>

theorem locator_change_outruns_refresh_in_flight:
  "refreshPromises (overlapping []) = [(None, DeferredP 2)]
   \<and> iterating (overlapping []) 1 \<and> iterating (overlapping []) 2
   \<and> effects (step (LocatorChanged (ChangeEvent ''deleted'' None)) (overlapping [])) =
       effects (overlapping [])
   \<and> awaited (step (LocatorChanged (ChangeEvent ''deleted'' None)) (overlapping [])) 2 =
       Some (DeferredP 2)
   \<and> started outrun 2 = Some 3 \<and> IterEnvs 3 None \<in> set (effects outrun) \<and> iterating outrun 3
   \<and> iterating outrun 1 \<and> promises outrun (AddEnvsP 1) = Pending
   \<and> promises outrun (DeferredP 1) = Pending
   \<and> promises failed_universal (AddEnvsP 0) = Rejected ''boom''
   \<and> phase_of (drains failed_universal 0) = Threw \<and> refreshes failed_universal = 1
   \<and> jobs failed_universal = []
   \<and> refreshPromises failed_universal = [(None, DeferredP 0)]
   \<and> promises failed_universal (DeferredP 0) = Rejected ''boom''
   \<and> effects (step (LocatorChanged (ChangeEvent ''created'' None)) failed_universal) =
       effects failed_universal
   \<and> refreshes stuck_change = 1 \<and> jobs stuck_change = []
   \<and> effects stuck_change = [RefreshStartFired, IterEnvs 0 None]
   \<and> started stuck_change 0 = None
   \<and> promises stuck_change (NewRefreshP 0) = Rejected ''boom''"
  by code_simp

section \<open>A failing flush\<close>






section \<open>The read path\<close>

lemma unborn_pending:
  "\<not> created (exec as (init upd envs)) p \<Longrightarrow> promises (exec as (init upd envs)) p = Pending"
  using promises_okD [OF reachable_parts(2), of as upd envs p] by blast

lemma unborn_no_reactions:
  "reactions (exec as (init upd envs)) (StartRefreshP (refreshes (exec as (init upd envs)))) = []"
proof (cases "reactions (exec as (init upd envs)) (StartRefreshP (refreshes (exec as (init upd envs))))")
  case (Cons r rs)
  then show ?thesis
    using reactions_okD [OF reachable_parts(1), of r as upd envs
        "StartRefreshP (refreshes (exec as (init upd envs)))"]
    by simp
qed simp

text \<open>
  What \<^verbatim>\<open>resolveEnv(path)\<close> decides by, in every state the service can reach: it answers
  from the cache exactly when the cache holds a record for the path and the tracking map is
  empty, its promise being fulfilled with that record and the locator not called; otherwise
  it calls the locator's \<^verbatim>\<open>resolveEnv\<close> and resolves its promise with the locator's.
\<close>

lemma resolveEnv_by_tracking_map:
  "fst (resolveEnv path (exec as (init upd envs))) = ResolveEnvP (resolves (exec as (init upd envs)))
   \<and> (if getEnv (cache (exec as (init upd envs))) path \<noteq> None
          \<and> refreshPromises (exec as (init upd envs)) = []
       then promises (snd (resolveEnv path (exec as (init upd envs))))
                (ResolveEnvP (resolves (exec as (init upd envs)))) =
              Fulfilled (EnvValue (the (getEnv (cache (exec as (init upd envs))) path)))
            \<and> effects (snd (resolveEnv path (exec as (init upd envs)))) =
                effects (exec as (init upd envs))
       else promises (snd (resolveEnv path (exec as (init upd envs))))
                (ResolveEnvP (resolves (exec as (init upd envs)))) = Pending
            \<and> effects (snd (resolveEnv path (exec as (init upd envs)))) =
                effects (exec as (init upd envs))
                  @ [LocatorResolveEnv (resolves (exec as (init upd envs))) path]
            \<and> jobs (snd (resolveEnv path (exec as (init upd envs)))) =
                jobs (exec as (init upd envs))
                  @ [ThenableJob (ResolveEnvP (resolves (exec as (init upd envs))))
                       (LocatorResolveP (resolves (exec as (init upd envs))))])"
  by (rule resolveEnv_from) (simp add: unborn_pending)

text \<open>
  C6 says, as the comment of lines 49-50 does, that \<^verbatim>\<open>resolveEnv\<close> does not rely on the
  cache while any refresh is in flight. The code tests that the tracking map is empty (line
  51), and the map can be empty during a refresh: the drains 1 and 2 that two locator changes
  started side by side share the entry of the absent query, and drain 1, done first, deletes
  it (line 96) while drain 2 is still iterating. \<^verbatim>\<open>resolveEnv\<close> then answers from the cache
  and does not call the locator.
\<close>

theorem resolveEnv_trusts_cache_during_refresh:
  "refreshPromises (untracked [EnvInfo ''/p'' 0]) = []
   \<and> iterating (untracked [EnvInfo ''/p'' 0]) 2
   \<and> promises (untracked [EnvInfo ''/p'' 0]) (AddEnvsP 2) = Pending
   \<and> phase_of (drains (untracked [EnvInfo ''/p'' 0]) 1) = Returned
   \<and> getEnv (cache (untracked [EnvInfo ''/p'' 0])) ''/p'' = Some (EnvInfo ''/p'' 0)
   \<and> fst (resolveEnv ''/p'' (untracked [EnvInfo ''/p'' 0])) = ResolveEnvP 0
   \<and> promises (snd (resolveEnv ''/p'' (untracked [EnvInfo ''/p'' 0]))) (ResolveEnvP 0) =
       Fulfilled (EnvValue (EnvInfo ''/p'' 0))
   \<and> effects (snd (resolveEnv ''/p'' (untracked [EnvInfo ''/p'' 0]))) =
       effects (untracked [EnvInfo ''/p'' 0])
   \<and> effects (untracked [EnvInfo ''/p'' 0]) =
       [RefreshStartFired, IterEnvs 0 None, CacheValidate 0, CacheFlush 0, Telemetry 1,
        RefreshStartFired, IterEnvs 1 None, RefreshStartFired, IterEnvs 2 None,
        CacheValidate 1, CacheFlush 1, Telemetry 1, Fire (Some 0) (ChangeEvent ''created'' None)]"
  by code_simp

text \<open>
  What \<^verbatim>\<open>getEnvs\<close> decides by, in every state the service can reach: with an empty cache
  and an empty tracking map it logs the error, starts exactly one refresh, for the absent
  query, whose promise gets the empty handler of \<^verbatim>\<open>ignoreErrors\<close> and nothing else, and
  returns the empty result in the same call; with a cache that is not empty or a tracked
  handle it changes nothing and returns the cached records that pass the filter.
\<close>

lemma getEnvs_by_tracking_map:
  "(if getAllEnvs (cache (exec as (init upd envs))) = []
        \<and> refreshPromises (exec as (init upd envs)) = []
    then fst (getEnvs f query (exec as (init upd envs))) = []
      \<and> effects (snd (getEnvs f query (exec as (init upd envs)))) =
          effects (exec as (init upd envs))
            @ [TraceError, RefreshStartFired, IterEnvs (refreshes (exec as (init upd envs))) None]
      \<and> refreshes (snd (getEnvs f query (exec as (init upd envs)))) =
          Suc (refreshes (exec as (init upd envs)))
      \<and> refreshPromises (snd (getEnvs f query (exec as (init upd envs)))) =
          [(None, DeferredP (refreshes (exec as (init upd envs))))]
      \<and> reactions (snd (getEnvs f query (exec as (init upd envs))))
            (StartRefreshP (refreshes (exec as (init upd envs)))) =
          [Reaction None (Some Noop)
             (Some (IgnoredP (StartRefreshP (refreshes (exec as (init upd envs))))))]
    else snd (getEnvs f query (exec as (init upd envs))) = exec as (init upd envs)
      \<and> fst (getEnvs f query (exec as (init upd envs))) =
          (case query of
             Some q \<Rightarrow> filter (f q) (getAllEnvs (cache (exec as (init upd envs))))
           | None \<Rightarrow> getAllEnvs (cache (exec as (init upd envs)))))"
  using getEnvs_from [of "exec as (init upd envs)" f query]
  by (simp add: unborn_pending unborn_no_reactions)

text \<open>
  C8 says that \<^verbatim>\<open>getEnvs\<close> triggers no refresh while a refresh is in flight, and that the
  errors of the refresh it triggers are ignored. The code tests that the tracking map is
  empty (line 59), which it is while drain 2 runs after drain 1, started beside it, has
  deleted the shared entry (line 96): with an empty cache \<^verbatim>\<open>getEnvs\<close> logs the error and
  starts refresh 3. And \<^verbatim>\<open>ignoreErrors\<close> is applied to the promise \<^verbatim>\<open>triggerRefresh\<close>
  returns (line 61), that of \<^verbatim>\<open>startRefresh\<close>, which is fulfilled whatever happens; the
  error of a refresh that fails rejects \<^verbatim>\<open>deferred.promise\<close> (line 101), on which nothing
  was ever registered.
\<close>

theorem getEnvs_starts_refresh_during_refresh:
  "cache (untracked []) = [] \<and> refreshPromises (untracked []) = []
   \<and> iterating (untracked []) 2 \<and> promises (untracked []) (AddEnvsP 2) = Pending
   \<and> fst (getEnvs (\<lambda>q e. True) None (untracked [])) = []
   \<and> effects (snd (getEnvs (\<lambda>q e. True) None (untracked []))) =
       effects (untracked []) @ [TraceError, RefreshStartFired, IterEnvs 3 None]
   \<and> iterating (snd (getEnvs (\<lambda>q e. True) None (untracked []))) 2
   \<and> iterating (snd (getEnvs (\<lambda>q e. True) None (untracked []))) 3
   \<and> effects unhandled = [TraceError, RefreshStartFired, IterEnvs 0 None]
   \<and> promises unhandled (AddEnvsP 0) = Rejected ''boom''
   \<and> promises unhandled (DeferredP 0) = Rejected ''boom''
   \<and> promises unhandled (StartRefreshP 0) = Fulfilled Undefined
   \<and> promises unhandled (IgnoredP (StartRefreshP 0)) = Fulfilled Undefined
   \<and> jobs unhandled = []
   \<and> list_all (\<lambda>k. reactions (exec (take k unhandled_trace) (init (\<lambda>n. False) [])) (DeferredP 0) = [])
        [0 ..< Suc (length unhandled_trace)]"
  by code_simp

end
